theory Spec2Isabelle
  imports Complex_Main
begin

text \<open>
  A model of the wavetable synthesizer of BasicWaveSynth: the ADSR envelope (ADSR.cpp), the
  resampler (Resample.cpp) and the voice pool with its MIDI callbacks (WavetableSynth.cpp),
  each function translated from its source, followed by the properties proved of them.
\<close>

section \<open>Numeric conventions\<close>

text \<open>
  The synthesizer computes on \<^verbatim>\<open>float\<close> and \<^verbatim>\<open>double\<close>. Both are modelled by
  \<^typ>\<open>real\<close>: rounding is left out, comparisons, sums and products are the exact ones.
  IEEE division by zero gives an infinity or a NaN, which \<^typ>\<open>real\<close> does not have
  (\<open>x / 0 = 0\<close> in HOL), so a division whose divisor is a run-time value is the checked
  \<open>fdiv\<close>, and a zero divisor is the error value \<open>DivByZero\<close>. Reading a buffer outside
  its bounds is the error value \<open>OutOfBounds\<close>.

  One effect of rounding is kept, because it decides whether a divisor is zero: a product
  of two \<^verbatim>\<open>float\<close>s that is itself a divisor is \<open>fmul\<close>, which underflows to 0 as the
  binary32 product does under round-to-nearest, when the exact product is at most
  \<open>2\<^sup>-\<^sup>1\<^sup>5\<^sup>0\<close> in magnitude (half the least subnormal). The other divisors of the
  code are arguments or integers converted to floating point, and are zero only when the
  exact value is.
\<close>

datatype error = DivByZero | OutOfBounds

definition fdiv :: "real \<Rightarrow> real \<Rightarrow> error + real" where
  "fdiv x y = (if y = 0 then Inl DivByZero else Inr (x / y))"

definition fmul :: "real \<Rightarrow> real \<Rightarrow> real" where
  "fmul x y = (if \<bar>x * y\<bar> \<le> 1 / 2 ^ 150 then 0 else x * y)"

section \<open>ADSR envelope (ADSR.cpp)\<close>

datatype Mode = ATTACK | DECAY | SUSTAIN | RELEASE

record ADSR =
  current_mode :: Mode
  envelope :: real
  sustain_level :: real
  attack_increment :: real
  decay_factor :: real
  release_factor :: real

text \<open>\<^verbatim>\<open>constexpr float EXP_DECAY = (float)(M_LN10 * 96/20)\<close>\<close>

definition EXP_DECAY :: real where
  "EXP_DECAY = ln 10 * 96 / 20"

text \<open>\<^verbatim>\<open>if (t == 0 || R == 0) { return 1; } return 1/(t*R);\<close>\<close>

definition linearDegradeRate :: "real \<Rightarrow> real \<Rightarrow> real \<Rightarrow> real \<Rightarrow> error + real" where
  "linearDegradeRate t R d s = (if t = 0 \<or> R = 0 then Inr 1 else fdiv 1 (fmul t R))"

text \<open>
  \<^verbatim>\<open>if (t == 0) { return 0; }  if (R == 0) { return 1.0f; }
  float k = EXP_DECAY / t;  return (float)pow(M_E, -k/R);\<close>
\<close>

definition expDegradeRate :: "real \<Rightarrow> real \<Rightarrow> error + real" where
  "expDegradeRate t R =
     (if t = 0 then Inr 0
      else if R = 0 then Inr 1
      else (case fdiv EXP_DECAY t of
              Inl err \<Rightarrow> Inl err
            | Inr k \<Rightarrow> (case fdiv (- k) R of
                         Inl err \<Rightarrow> Inl err
                       | Inr q \<Rightarrow> Inr (exp 1 powr q))))"

text \<open>The constructor \<^verbatim>\<open>ADSR::ADSR(float a, float d, float s, float r, float R)\<close>.\<close>

definition ADSR_new :: "real \<Rightarrow> real \<Rightarrow> real \<Rightarrow> real \<Rightarrow> real \<Rightarrow> error + ADSR" where
  "ADSR_new a d s r R =
     (case linearDegradeRate a R d s of
        Inl err \<Rightarrow> Inl err
      | Inr ai \<Rightarrow>
     (case expDegradeRate d R of
        Inl err \<Rightarrow> Inl err
      | Inr df \<Rightarrow>
     (case expDegradeRate r R of
        Inl err \<Rightarrow> Inl err
      | Inr rf \<Rightarrow>
          Inr \<lparr>current_mode = ATTACK, envelope = (if a = 0 then 1 else 0),
               sustain_level = s, attack_increment = ai,
               decay_factor = df, release_factor = rf\<rparr>)))"

definition sustainOff :: "ADSR \<Rightarrow> ADSR" where
  "sustainOff e = e\<lparr>current_mode := RELEASE\<rparr>"

text \<open>\<^verbatim>\<open>envelope = 0.0f; current_mode = ATTACK;\<close>\<close>

definition ADSR_reset :: "ADSR \<Rightarrow> ADSR" where
  "ADSR_reset e = e\<lparr>envelope := 0, current_mode := ATTACK\<rparr>"

definition ADSR_output :: "ADSR \<Rightarrow> real" where
  "ADSR_output e = envelope e"

definition ADSR_mode :: "ADSR \<Rightarrow> Mode" where
  "ADSR_mode e = current_mode e"

text \<open>One sample tick, \<^verbatim>\<open>ADSR::next\<close>: the \<^verbatim>\<open>switch\<close> on the current mode.\<close>

definition ADSR_next :: "ADSR \<Rightarrow> ADSR" where
  "ADSR_next e =
     (case current_mode e of
        ATTACK \<Rightarrow>
          (let e1 = e\<lparr>envelope := envelope e + attack_increment e\<rparr>
           in if 1 \<le> envelope e1 then e1\<lparr>envelope := 1, current_mode := DECAY\<rparr> else e1)
      | DECAY \<Rightarrow>
          (let e1 = e\<lparr>envelope := envelope e * decay_factor e\<rparr>
           in if envelope e1 \<le> sustain_level e1 then e1\<lparr>envelope := sustain_level e1\<rparr> else e1)
      | SUSTAIN \<Rightarrow> e
      | RELEASE \<Rightarrow> e\<lparr>envelope := envelope e * release_factor e\<rparr>)"




section \<open>Sample source and resampler (AudioData.cpp, Resample.cpp)\<close>

text \<open>
  \<^verbatim>\<open>AudioData\<close>: the frame count, the sampling rate and the channel count are
  \<^verbatim>\<open>unsigned\<close>, the interleaved samples are a \<^verbatim>\<open>std::vector<float>\<close>. The accessors
  \<^verbatim>\<open>frames()\<close>, \<^verbatim>\<open>rate()\<close>, \<^verbatim>\<open>channels()\<close> and \<^verbatim>\<open>data()\<close> of AudioData.h read
  these members.
\<close>

record AudioData =
  frame_count :: nat
  sampling_rate :: nat
  channel_count :: nat
  fdata :: "real list"

text \<open>
  \<^verbatim>\<open>AudioData(unsigned nframes, unsigned R, unsigned nchannels)\<close>: silence of the given
  length; \<^verbatim>\<open>fdata.resize(frame_count * channel_count)\<close> multiplies in 32 bits.
\<close>

definition AudioData_new :: "nat \<Rightarrow> nat \<Rightarrow> nat \<Rightarrow> AudioData" where
  "AudioData_new nframes R nchannels =
     \<lparr>frame_count = nframes, sampling_rate = R, channel_count = nchannels,
      fdata = replicate ((nframes * nchannels) mod 2 ^ 32) 0\<rparr>"

text \<open>\<^verbatim>\<open>audio_data->data()[k]\<close>: a read of the vector's storage.\<close>

definition data_at :: "AudioData \<Rightarrow> nat \<Rightarrow> error + real" where
  "data_at ad k = (if k < length (fdata ad) then Inr (fdata ad ! k) else Inl OutOfBounds)"

text \<open>
  The casts of \<^verbatim>\<open>Resample::output\<close>. \<^verbatim>\<open>(int)x\<close> truncates towards zero (C++ defines it
  for \<open>\<bar>x\<bar> < 2^31\<close>); \<^verbatim>\<open>size_t\<close> has 64 bits and \<^verbatim>\<open>unsigned\<close> 32, and a conversion or
  an operation in them wraps.
\<close>

definition int_of_double :: "real \<Rightarrow> int" where
  "int_of_double x = (if 0 \<le> x then \<lfloor>x\<rfloor> else - \<lfloor>- x\<rfloor>)"

definition size_t_of_int :: "int \<Rightarrow> nat" where
  "size_t_of_int n = nat (n mod 2 ^ 64)"

definition size_t :: "nat \<Rightarrow> nat" where
  "size_t n = n mod 2 ^ 64"

definition unsigned :: "nat \<Rightarrow> nat" where
  "unsigned n = n mod 2 ^ 32"

definition unsigned_of_double :: "real \<Rightarrow> nat" where
  "unsigned_of_double x = unsigned (nat (int_of_double x))"

record Resample =
  audio_data :: AudioData
  ichannel :: nat
  findex :: real
  speedup :: real
  multiplier :: real
  iloop_bgn :: nat
  iloop_end :: nat

text \<open>\<^verbatim>\<open>constexpr double OCTAVE_CENTILES = 1.0 / 1200.0\<close>\<close>

definition OCTAVE_CENTILES :: real where
  "OCTAVE_CENTILES = 1 / 1200"

text \<open>
  The constructor: \<^verbatim>\<open>findex(0.8), speedup(factor), multiplier(factor)\<close>.
\<close>

definition Resample_new :: "AudioData \<Rightarrow> nat \<Rightarrow> real \<Rightarrow> nat \<Rightarrow> nat \<Rightarrow> Resample" where
  "Resample_new ad_ptr channel factor loop_bgn loop_end =
     \<lparr>audio_data = ad_ptr, ichannel = channel, findex = 8 / 10,
      speedup = factor, multiplier = factor,
      iloop_bgn = loop_bgn, iloop_end = loop_end\<rparr>"

text \<open>
  The position \<^verbatim>\<open>output\<close> reads at: the triple \<open>(index, i, e)\<close> after the loop fold.
  \<^verbatim>\<open>
  size_t i = (int)findex, e = i + 1;
  double index = findex;
  if (iloop_bgn < iloop_end && iloop_end < findex) {
    unsigned interval = iloop_end - iloop_bgn;
    double iters = ((findex - iloop_bgn) / interval);
    interval = (unsigned)iters * interval;
    index = findex - interval;
    i = (int)index;
    e = audio_data->frames() == i ? iloop_bgn : i + 1;
  }\<close>
\<close>

definition fold_position :: "Resample \<Rightarrow> error + (real \<times> nat \<times> nat)" where
  "fold_position r =
     (let i = size_t_of_int (int_of_double (findex r));
          e = size_t (i + 1);
          index = findex r
      in if iloop_bgn r < iloop_end r \<and> real (iloop_end r) < findex r then
           (let interval = iloop_end r - iloop_bgn r
            in case fdiv (findex r - real (iloop_bgn r)) (real interval) of
                 Inl err \<Rightarrow> Inl err
               | Inr iters \<Rightarrow>
                   (let interval' = unsigned (unsigned_of_double iters * interval);
                        index' = findex r - real interval';
                        i' = size_t_of_int (int_of_double index');
                        e' = (if frame_count (audio_data r) = i' then iloop_bgn r
                              else size_t (i' + 1))
                    in Inr (index', i', e')))
         else Inr (index, i, e))"

text \<open>
  \<^verbatim>\<open>
  if (e < audio_data->frames()) {
    double t1 = index - i, t0 = 1.0 - t1;
    i = i * channels + ichannel;
    e = e * channels + ichannel;
    float init = audio_data->data()[i];
    float end = audio_data->data()[e];
    float result = (float)((t0 * init) + end * t1);
    return result;
  }
  if (audio_data->frames() == i && findex - i < 0.001) {
    return audio_data->data()[i * channels + ichannel];
  }
  return 0.0f;\<close>
\<close>

definition Resample_output :: "Resample \<Rightarrow> error + real" where
  "Resample_output r =
     (let channels = channel_count (audio_data r)
      in case fold_position r of
           Inl err \<Rightarrow> Inl err
         | Inr (index, i, e) \<Rightarrow>
             if e < frame_count (audio_data r) then
               (let t1 = index - real i;
                    t0 = 1 - t1
                in case data_at (audio_data r) (size_t (i * channels + ichannel r)) of
                     Inl err \<Rightarrow> Inl err
                   | Inr init \<Rightarrow>
                       (case data_at (audio_data r) (size_t (e * channels + ichannel r)) of
                          Inl err \<Rightarrow> Inl err
                        | Inr end_v \<Rightarrow> Inr (t0 * init + end_v * t1)))
             else if frame_count (audio_data r) = i \<and> findex r - real i < 1 / 1000 then
               data_at (audio_data r) (size_t (i * channels + ichannel r))
             else Inr 0)"

text \<open>\<^verbatim>\<open>findex += speedup;\<close>\<close>

definition Resample_next :: "Resample \<Rightarrow> Resample" where
  "Resample_next r = r\<lparr>findex := findex r + speedup r\<rparr>"

text \<open>\<^verbatim>\<open>float pitch = (float)pow(2.0, cents * OCTAVE_CENTILES); speedup = multiplier * pitch;\<close>\<close>

definition pitchOffset :: "Resample \<Rightarrow> real \<Rightarrow> Resample" where
  "pitchOffset r cents = r\<lparr>speedup := multiplier r * (2 powr (cents * OCTAVE_CENTILES))\<rparr>"

text \<open>\<^verbatim>\<open>findex = 0.0;\<close>\<close>

definition Resample_reset :: "Resample \<Rightarrow> Resample" where
  "Resample_reset r = r\<lparr>findex := 0\<rparr>"

text \<open>A caller's sequence of calls on one resampler, the output read last.\<close>

datatype Resample_call = RNext | RPitchOffset real | RReset

fun Resample_do :: "Resample_call \<Rightarrow> Resample \<Rightarrow> Resample" where
  "Resample_do RNext r = Resample_next r"
| "Resample_do (RPitchOffset cents) r = pitchOffset r cents"
| "Resample_do RReset r = Resample_reset r"

fun Resample_run :: "Resample_call list \<Rightarrow> Resample \<Rightarrow> Resample" where
  "Resample_run [] r = r"
| "Resample_run (c # cs) r = Resample_run cs (Resample_do c r)"

text \<open>
  The folded position in the words of the specification,
  \<open>loop_begin + ((index - loop_begin) mod (loop_end - loop_begin))\<close>, with the
  remainder of real numbers; the code's own fold is \<open>fold_position\<close> above.
\<close>

definition real_mod :: "real \<Rightarrow> real \<Rightarrow> real" where
  "real_mod x y = x - of_int \<lfloor>x / y\<rfloor> * y"

definition folded :: "Resample \<Rightarrow> real" where
  "folded r =
     real (iloop_bgn r)
       + real_mod (findex r - real (iloop_bgn r)) (real (iloop_end r - iloop_bgn r))"

text \<open>A short source to run the resampler on: four mono frames 1, 2, 3, 4.\<close>

definition ramp4 :: AudioData where
  "ramp4 = \<lparr>frame_count = 4, sampling_rate = 44100, channel_count = 1, fdata = [1, 2, 3, 4]\<rparr>"

section \<open>Wavetable synthesizer (WavetableSynth.h, WavetableSynth.cpp)\<close>

definition EPSILON :: real where
  "EPSILON = 1 / 100"

definition A440_CENTS :: real where
  "A440_CENTS = 6900"

definition CENTS_SCALE :: int where
  "CENTS_SCALE = 100"

definition CENTS_RANGE :: real where
  "CENTS_RANGE = 2 * real_of_int CENTS_SCALE"

definition RATIO_7BIT :: real where
  "RATIO_7BIT = 1 / 127"

definition TWO_PI :: real where
  "TWO_PI = 2 * pi"

definition REV_TO_HZ :: real where
  "REV_TO_HZ = 5 * TWO_PI"

definition MAX_NOTES :: int where
  "MAX_NOTES = 10"

text \<open>
  \<^verbatim>\<open>enum Voice { Grand, Oboe, Cello, Max, Default = Grand }\<close>: an unscoped enumeration;
  \<^verbatim>\<open>(Voice)(value % Voice::Max)\<close> casts any \<^verbatim>\<open>int\<close> into it, so it is its integer.
\<close>

type_synonym Voice = int

definition Grand :: Voice where
  "Grand = 0"

definition Oboe :: Voice where
  "Oboe = 1"

definition Cello :: Voice where
  "Cello = 2"

definition Max_v :: Voice where
  "Max_v = 3"

definition Default :: Voice where
  "Default = Grand"

text \<open>
  What the synthesizer takes from outside this code: the decoded contents of the ten
  sample files, and the value of a default-constructed \<^verbatim>\<open>Resample\<close> (the member
  \<^verbatim>\<open>Note::phase\<close> before \<^verbatim>\<open>Play\<close> assigns it; Resample.h declares the defaults).
\<close>

datatype wav_file =
  UpGrand_A22_5 | UpGrand_A55 | UpGrand_A110 | UpGrand_A220 | UpGrand_A440
  | UpGrand_A880 | UpGrand_A1760 | UpGrand_A3520 | Cello_wav | Oboe_wav

record externals =
  wav :: "wav_file \<Rightarrow> AudioData"
  default_Resample :: Resample

record WaveData =
  source :: AudioData
  channel :: nat
  first :: nat
  last_w :: nat
  speed :: real

text \<open>\<^verbatim>\<open>source(file), speed(gain), first(start), last(end), channel(0)\<close>\<close>

definition WaveData_new :: "AudioData \<Rightarrow> real \<Rightarrow> nat \<Rightarrow> nat \<Rightarrow> WaveData" where
  "WaveData_new file gain start end_v =
     \<lparr>source = file, channel = 0, first = start, last_w = end_v, speed = gain\<rparr>"

definition grand0 :: "externals \<Rightarrow> WaveData" where
  "grand0 X = WaveData_new (wav X UpGrand_A22_5) 16 46310 66775"

definition grand1 :: "externals \<Rightarrow> WaveData" where
  "grand1 X = WaveData_new (wav X UpGrand_A55) 8 129883 197134"

definition grand2 :: "externals \<Rightarrow> WaveData" where
  "grand2 X = WaveData_new (wav X UpGrand_A110) 4 71353 117383"

definition grand3 :: "externals \<Rightarrow> WaveData" where
  "grand3 X = WaveData_new (wav X UpGrand_A220) 2 109664 169738"

definition grand4 :: "externals \<Rightarrow> WaveData" where
  "grand4 X = WaveData_new (wav X UpGrand_A440) 1 56129 100326"

definition grand5 :: "externals \<Rightarrow> WaveData" where
  "grand5 X = WaveData_new (wav X UpGrand_A880) (1 / 2) 11437 40303"

definition grand6 :: "externals \<Rightarrow> WaveData" where
  "grand6 X = WaveData_new (wav X UpGrand_A1760) (1 / 4) 6344 13215"

definition grand7 :: "externals \<Rightarrow> WaveData" where
  "grand7 X = WaveData_new (wav X UpGrand_A3520) (1 / 8) 14565 28123"

definition cello :: "externals \<Rightarrow> WaveData" where
  "cello X = WaveData_new (wav X Cello_wav) 4.51280512805128051280512805128051281 39763 42019"

definition oboe :: "externals \<Rightarrow> WaveData" where
  "oboe X = WaveData_new (wav X Oboe_wav) 0.990990990990990990990990990990990990991 322 17455"

text \<open>\<^verbatim>\<open>struct Note\<close>; \<^verbatim>\<open>key\<close> is a \<^verbatim>\<open>short\<close>, so an \<^verbatim>\<open>int\<close> stored in it wraps to 16 bits.\<close>

record Note =
  key :: int
  vel :: real
  inst :: Voice
  phase :: Resample
  env :: ADSR

definition short_of_int :: "int \<Rightarrow> int" where
  "short_of_int n = (n + 2 ^ 15) mod 2 ^ 16 - 2 ^ 15"

text \<open>Sequencing of calls that can end in an error value.\<close>

definition and_then :: "error + 'a \<Rightarrow> ('a \<Rightarrow> error + 'b) \<Rightarrow> error + 'b" where
  "and_then m f = (case m of Inl err \<Rightarrow> Inl err | Inr x \<Rightarrow> f x)"

text \<open>
  \<^verbatim>\<open>
  float rate_offset = sampling_rate / (float)data.source.rate();
  phase = Resample(&data.source, data.channel, (rate_offset == 0) ? data.speed :
    data.speed * rate_offset, data.first, data.last);
  phase.pitchOffset(key - A440_CENTS);\<close>
\<close>

definition SetSound :: "WaveData \<Rightarrow> real \<Rightarrow> Note \<Rightarrow> error + Note" where
  "SetSound data srate n =
     and_then (fdiv srate (real (sampling_rate (source data))))
       (\<lambda>rate_offset.
          Inr (n\<lparr>phase :=
                  pitchOffset
                    (Resample_new (source data) (unsigned (channel data))
                       (if rate_offset = 0 then speed data else speed data * rate_offset)
                       (unsigned (first data)) (unsigned (last_w data)))
                    (real_of_int (key n) - A440_CENTS)\<rparr>))"

text \<open>\<^verbatim>\<open>Note::Play\<close>: the \<^verbatim>\<open>switch (inst)\<close> and the register splits of the piano.\<close>

definition Play :: "externals \<Rightarrow> real \<Rightarrow> Note \<Rightarrow> error + Note" where
  "Play X srate n =
     (if inst n = Grand then
        (if key n < 1600 then SetSound (grand0 X) srate n
         else if key n < 3200 then SetSound (grand1 X) srate n
         else if key n < 4800 then SetSound (grand2 X) srate n
         else if key n < 6400 then SetSound (grand3 X) srate n
         else if key n < 8000 then SetSound (grand4 X) srate n
         else if key n < 9600 then SetSound (grand5 X) srate n
         else if key n < 11200 then SetSound (grand6 X) srate n
         else SetSound (grand7 X) srate n)
      else if inst n = Cello then SetSound (cello X) srate n
      else if inst n = Oboe then SetSound (oboe X) srate n
      else Inr n)"

text \<open>
  \<^verbatim>\<open>Note::Note(short midid, float velocity, Voice instr, float rate)
    : env(0.01f, 600.0f, 0.8f, 4.0f, rate), key(midid), vel(velocity), inst(instr)
  { Play(rate); }\<close>
\<close>

definition Note_new :: "externals \<Rightarrow> int \<Rightarrow> real \<Rightarrow> Voice \<Rightarrow> real \<Rightarrow> error + Note" where
  "Note_new X midid velocity instr srate =
     and_then (ADSR_new (1 / 100) 600 (8 / 10) 4 srate)
       (\<lambda>e. Play X srate
               \<lparr>key = midid, vel = velocity, inst = instr,
                phase = default_Resample X, env = e\<rparr>)"

text \<open>
  \<^verbatim>\<open>
  if (key == -1) { return; }
  if (env.mode() == ADSR::RELEASE && env.output() < EPSILON) {
    key = -1;  vel = 0;  phase.pitchOffset(-25600.0f);  return;
  }
  phase.next();  env.next();\<close>
\<close>

definition Note_next :: "Note \<Rightarrow> Note" where
  "Note_next n =
     (if key n = - 1 then n
      else if ADSR_mode (env n) = RELEASE \<and> ADSR_output (env n) < EPSILON then
        n\<lparr>key := - 1, vel := 0, phase := pitchOffset (phase n) (- 25600)\<rparr>
      else n\<lparr>phase := Resample_next (phase n), env := ADSR_next (env n)\<rparr>)"

record WavetableSynth =
  playing :: "Note list"
  bend :: real
  rate :: real
  vibrato :: real
  mod_w :: real
  vol :: real
  mphase :: real
  dphase :: real
  newest :: int
  patch :: Voice

text \<open>
  The loop \<^verbatim>\<open>for (i = 0; i < MAX_NOTES; ++i) { ... playing[i] ... }\<close>, from the value
  \<open>i\<close> of the loop variable on; \<open>f\<close> is what the body does to \<^verbatim>\<open>playing[i]\<close>.
\<close>

function for_notes :: "int \<Rightarrow> (Note \<Rightarrow> Note) \<Rightarrow> Note list \<Rightarrow> Note list" where
  "for_notes i f ps =
     (if i < MAX_NOTES then for_notes (i + 1) f (ps[nat i := f (ps ! nat i)]) else ps)"
  by pat_completeness auto
termination
  by (relation "measure (\<lambda>(i, f, ps). nat (MAX_NOTES - i))") auto

declare for_notes.simps [simp del]

text \<open>
  The constructor. The array member \<^verbatim>\<open>Note playing[MAX_NOTES]\<close> is default-constructed
  (\<^verbatim>\<open>Note(-1, 0, Default, 44100.0f)\<close>) before the body runs; the base \<^verbatim>\<open>MidiIn(devno)\<close>
  and \<^verbatim>\<open>start()\<close> open the input device and its polling thread and are left out:
  \<^verbatim>\<open>
  : MidiIn(devno), newest(0), patch(Default), bend(0), vibrato(0), vol(0.5f),
    mod(0), mphase(0), rate((float)R)
  { dphase = REV_TO_HZ / R;
    for (i = 0; i < MAX_NOTES; ++i) { playing[i] = Note(-1, 0, Voice::Default, (float)R); }
    start(); }\<close>
\<close>

definition WavetableSynth_new :: "externals \<Rightarrow> int \<Rightarrow> int \<Rightarrow> error + WavetableSynth" where
  "WavetableSynth_new X devno R =
     and_then (Note_new X (- 1) 0 Default 44100)
       (\<lambda>n0. and_then (fdiv REV_TO_HZ (real_of_int R))
       (\<lambda>dp. and_then (Note_new X (- 1) 0 Default (real_of_int R))
       (\<lambda>n. Inr \<lparr>playing = for_notes 0 (\<lambda>_. n) (replicate (nat MAX_NOTES) n0),
                 bend = 0, rate = real_of_int R, vibrato = 0, mod_w = 0, vol = 1 / 2,
                 mphase = 0, dphase = dp, newest = 0, patch = Default\<rparr>)))"

text \<open>
  \<^verbatim>\<open>
  if (0 != vibrato) {
    t = mphase + dphase;
    mphase = (t <= TWO_PI) ? t : (t - TWO_PI);
    mod = vibrato * (float)sin(mphase);
    for (i = 0; i < MAX_NOTES; ++i)
      playing[i].phase.pitchOffset(mod + bend + playing[i].key - A440_CENTS);
  }
  for (i = 0; i < MAX_NOTES; ++i) { playing[i].next(); }\<close>
\<close>

definition WavetableSynth_next :: "WavetableSynth \<Rightarrow> WavetableSynth" where
  "WavetableSynth_next s =
     (let s1 =
        (if 0 \<noteq> vibrato s then
           (let t = mphase s + dphase s;
                mp = (if t \<le> TWO_PI then t else t - TWO_PI);
                m = vibrato s * sin mp
            in s\<lparr>mphase := mp, mod_w := m,
                 playing :=
                   for_notes 0
                     (\<lambda>n. n\<lparr>phase :=
                             pitchOffset (phase n)
                               (m + bend s + real_of_int (key n) - A440_CENTS)\<rparr>)
                     (playing s)\<rparr>)
         else s)
      in s1\<lparr>playing := for_notes 0 Note_next (playing s1)\<rparr>)"

text \<open>\<^verbatim>\<open>vibrato = value * CENTS_RANGE * RATIO_7BIT;\<close>\<close>

definition onModulationWheelChange :: "WavetableSynth \<Rightarrow> int \<Rightarrow> int \<Rightarrow> WavetableSynth" where
  "onModulationWheelChange s chan v = s\<lparr>vibrato := real_of_int v * CENTS_RANGE * RATIO_7BIT\<rparr>"

text \<open>
  \<^verbatim>\<open>note *= CENTS_SCALE;
  for (i = 0; i < MAX_NOTES; ++i) if (playing[i].key == note) playing[i].env.sustainOff();\<close>
\<close>

definition onNoteOff :: "WavetableSynth \<Rightarrow> int \<Rightarrow> int \<Rightarrow> WavetableSynth" where
  "onNoteOff s chan note0 =
     (let note = note0 * CENTS_SCALE
      in s\<lparr>playing :=
             for_notes 0 (\<lambda>n. if key n = note then n\<lparr>env := sustainOff (env n)\<rparr> else n)
               (playing s)\<rparr>)"

text \<open>
  The two scanning loops of \<^verbatim>\<open>onNoteOn\<close> share their body. \<open>scan ps note hi index i\<close> is
  \<^verbatim>\<open>for (; i < hi; ++i)\<close> over that body: it ends in \<open>Retrigger i\<close> at the
  \<^verbatim>\<open>return\<close> of a slot that holds the key, or in \<open>NotHeld index i\<close> with the values the
  two variables have when the loop runs out. An \<open>i\<close> outside the array is \<open>OutOfBounds\<close>.
  \<^verbatim>\<open>
    if (playing[i].key == note) { ...retrigger...; return; }
    // look for first free note slot concurrently
    if (0 <= index && playing[i].key < 0) { index = i; }\<close>
\<close>

datatype scan_result = Retrigger int | NotHeld int int

function scan :: "Note list \<Rightarrow> int \<Rightarrow> int \<Rightarrow> int \<Rightarrow> int \<Rightarrow> error + scan_result" where
  "scan ps note hi index i =
     (if i < hi then
        (if i < 0 \<or> int (length ps) \<le> i then Inl OutOfBounds
         else if key (ps ! nat i) = note then Inr (Retrigger i)
         else scan ps note hi
                (if 0 \<le> index \<and> key (ps ! nat i) < 0 then i else index) (i + 1))
      else Inr (NotHeld index i))"
  by pat_completeness auto
termination
  by (relation "measure (\<lambda>(ps, note, hi, index, i). nat (hi - i))") auto

declare scan.simps [simp del]

text \<open>\<^verbatim>\<open>playing[i]\<close> read and written at an index that no loop bound keeps in the array.\<close>

definition slot :: "Note list \<Rightarrow> int \<Rightarrow> error + Note" where
  "slot ps i = (if 0 \<le> i \<and> i < int (length ps) then Inr (ps ! nat i) else Inl OutOfBounds)"

definition set_slot :: "Note list \<Rightarrow> int \<Rightarrow> (Note \<Rightarrow> Note) \<Rightarrow> error + Note list" where
  "set_slot ps i f = and_then (slot ps i) (\<lambda>n. Inr (ps[nat i := f n]))"

text \<open>
  The retrigger of a slot that already holds the key:
  \<^verbatim>\<open>playing[i].vel = velocity * RATIO_7BIT; playing[i].env.reset(); playing[i].phase.reset();\<close>
\<close>

definition retrigger :: "int \<Rightarrow> Note \<Rightarrow> Note" where
  "retrigger velocity n =
     n\<lparr>vel := real_of_int velocity * RATIO_7BIT,
       env := ADSR_reset (env n), phase := Resample_reset (phase n)\<rparr>"

text \<open>
  \<^verbatim>\<open>
  int i;  int index = -1;
  note *= CENTS_SCALE;
  for (i = newest; i < MAX_NOTES; ++i) { ...body... }
  for (i = 0; i < newest; ++i) { ...body... }
  // Look for note to steal if none were open
  if (index < 0) { index = (newest + 1 == MAX_NOTES) ? 0 : newest + 1; }
  playing[index].key = note;
  playing[index].vel = velocity * RATIO_7BIT;
  playing[i].inst = patch;
  playing[index].Play(rate);
  playing[index].env.reset();
  newest = index;\<close>
\<close>

definition onNoteOn :: "externals \<Rightarrow> WavetableSynth \<Rightarrow> int \<Rightarrow> int \<Rightarrow> int \<Rightarrow> error + WavetableSynth" where
  "onNoteOn X s chan note0 velocity =
     (let note = note0 * CENTS_SCALE
      in and_then (scan (playing s) note MAX_NOTES (- 1) (newest s))
           (\<lambda>r1. case r1 of
              Retrigger i \<Rightarrow>
                and_then (set_slot (playing s) i (retrigger velocity))
                  (\<lambda>ps. Inr (s\<lparr>playing := ps\<rparr>))
            | NotHeld index1 i1 \<Rightarrow>
                and_then (scan (playing s) note (newest s) index1 0)
                  (\<lambda>r2. case r2 of
                     Retrigger i \<Rightarrow>
                       and_then (set_slot (playing s) i (retrigger velocity))
                         (\<lambda>ps. Inr (s\<lparr>playing := ps\<rparr>))
                   | NotHeld index2 i \<Rightarrow>
                       (let index =
                          (if index2 < 0
                           then (if newest s + 1 = MAX_NOTES then 0 else newest s + 1)
                           else index2)
                        in and_then (set_slot (playing s) index
                                       (\<lambda>n. n\<lparr>key := short_of_int note,
                                               vel := real_of_int velocity * RATIO_7BIT\<rparr>))
                          (\<lambda>ps1. and_then (set_slot ps1 i (\<lambda>n. n\<lparr>inst := patch s\<rparr>))
                          (\<lambda>ps2. and_then (slot ps2 index)
                          (\<lambda>n. and_then (Play X (rate s) n)
                          (\<lambda>n'. Inr (s\<lparr>playing :=
                                          ps2[nat index := n'\<lparr>env := ADSR_reset (env n')\<rparr>],
                                        newest := index\<rparr>)))))))))"

text \<open>
  \<^verbatim>\<open>a % b\<close> of C++ truncates towards zero.
  \<^verbatim>\<open>patch = (Voice)(value % Voice::Max);
  for (i = 0; i < MAX_NOTES; ++i) { playing[i] = Note(-1, 0, patch, rate); }\<close>
\<close>

definition c_rem :: "int \<Rightarrow> int \<Rightarrow> int" where
  "c_rem a b = sgn a * (\<bar>a\<bar> mod \<bar>b\<bar>)"

definition onPatchChange :: "externals \<Rightarrow> WavetableSynth \<Rightarrow> int \<Rightarrow> int \<Rightarrow> error + WavetableSynth" where
  "onPatchChange X s chan v =
     (let p = c_rem v Max_v
      in and_then (Note_new X (- 1) 0 p (rate s))
           (\<lambda>n. Inr (s\<lparr>patch := p, playing := for_notes 0 (\<lambda>_. n) (playing s)\<rparr>)))"

text \<open>
  \<^verbatim>\<open>bend = value * CENTS_RANGE;
  for (i = 0; i < MAX_NOTES; ++i)
    playing[i].phase.pitchOffset(bend + playing[i].key - A440_CENTS);\<close>
\<close>

definition onPitchWheelChange :: "WavetableSynth \<Rightarrow> int \<Rightarrow> real \<Rightarrow> WavetableSynth" where
  "onPitchWheelChange s chan v =
     (let b = v * CENTS_RANGE
      in s\<lparr>bend := b,
           playing :=
             for_notes 0
               (\<lambda>n. n\<lparr>phase := pitchOffset (phase n) (b + real_of_int (key n) - A440_CENTS)\<rparr>)
               (playing s)\<rparr>)"

text \<open>\<^verbatim>\<open>vol = level * RATIO_7BIT;\<close>\<close>

definition onVolumeChange :: "WavetableSynth \<Rightarrow> int \<Rightarrow> int \<Rightarrow> WavetableSynth" where
  "onVolumeChange s chan level = s\<lparr>vol := real_of_int level * RATIO_7BIT\<rparr>"

text \<open>
  The array has \<open>MAX_NOTES\<close> slots and \<open>newest\<close> indexes one of them: true of the
  constructed synthesizer and kept by \<^verbatim>\<open>next\<close> and by every callback.
\<close>

definition wf_synth :: "WavetableSynth \<Rightarrow> bool" where
  "wf_synth s = (int (length (playing s)) = MAX_NOTES \<and> 0 \<le> newest s \<and> newest s < MAX_NOTES)"

text \<open>
  What reaches the synthesizer between two moments: the per-sample \<^verbatim>\<open>next()\<close> and the
  MIDI callbacks, in the order they arrive. \<open>run_events\<close> applies a sequence of them and
  stops at the first that fails.
\<close>

datatype event =
    Tick
  | NoteOn int int int
  | NoteOff int int
  | PatchChange int int
  | PitchWheelChange int real
  | ModulationWheelChange int int
  | VolumeChange int int

fun apply_event :: "externals \<Rightarrow> event \<Rightarrow> WavetableSynth \<Rightarrow> error + WavetableSynth" where
  "apply_event X Tick s = Inr (WavetableSynth_next s)"
| "apply_event X (NoteOn chan note0 velocity) s = onNoteOn X s chan note0 velocity"
| "apply_event X (NoteOff chan note0) s = Inr (onNoteOff s chan note0)"
| "apply_event X (PatchChange chan v) s = onPatchChange X s chan v"
| "apply_event X (PitchWheelChange chan v) s = Inr (onPitchWheelChange s chan v)"
| "apply_event X (ModulationWheelChange chan v) s = Inr (onModulationWheelChange s chan v)"
| "apply_event X (VolumeChange chan level) s = Inr (onVolumeChange s chan level)"

fun run_events :: "externals \<Rightarrow> event list \<Rightarrow> WavetableSynth \<Rightarrow> error + WavetableSynth" where
  "run_events X [] s = Inr s"
| "run_events X (ev # evs) s = and_then (apply_event X ev s) (run_events X evs)"

text \<open>
  The events that write the resampler speed of the voice in slot \<open>i\<close>, arriving in state
  \<open>s\<close>: a tick with a vibrato depth other than 0 (l.108-112), a tick on which the voice's
  own \<^verbatim>\<open>next()\<close> reclaims it (l.223-228), a note-on of a key that no slot holds when
  \<open>i\<close> is the slot it takes (l.166-176, through \<^verbatim>\<open>Play\<close>), every patch change (l.186-188,
  all voices rebuilt) and every pitch-wheel change (l.196-198). A note-on that retriggers, a
  note-off, the modulation wheel and the volume write no speed.
\<close>

fun overwrites :: "WavetableSynth \<Rightarrow> event \<Rightarrow> nat \<Rightarrow> bool" where
  "overwrites s Tick i =
     (vibrato s \<noteq> 0 \<or>
      (key (playing s ! i) \<noteq> - 1 \<and> current_mode (env (playing s ! i)) = RELEASE \<and>
       envelope (env (playing s ! i)) < EPSILON))"
| "overwrites s (NoteOn chan note0 velocity) i =
     (\<not> list_ex (\<lambda>n. key n = note0 * CENTS_SCALE) (playing s) \<and>
      int i = (if newest s + 1 = MAX_NOTES then 0 else newest s + 1))"
| "overwrites s (NoteOff chan note0) i = False"
| "overwrites s (PatchChange chan v) i = True"
| "overwrites s (PitchWheelChange chan v) i = True"
| "overwrites s (ModulationWheelChange chan v) i = False"
| "overwrites s (VolumeChange chan level) i = False"

text \<open>
  \<open>undisturbed X evs s i\<close>: run from \<open>s\<close>, every event of \<open>evs\<close> returns and none of them
  overwrites the speed of slot \<open>i\<close> in the state it arrives in.
\<close>

fun undisturbed :: "externals \<Rightarrow> event list \<Rightarrow> WavetableSynth \<Rightarrow> nat \<Rightarrow> bool" where
  "undisturbed X [] s i = True"
| "undisturbed X (ev # evs) s i =
     (\<not> overwrites s ev i \<and>
      (case apply_event X ev s of Inl err \<Rightarrow> False | Inr s' \<Rightarrow> undisturbed X evs s' i))"

text \<open>
  A concrete environment: every sample file decodes to four frames of mono silence at
  44100 Hz, and the default resampler plays an empty source at speed 1 without a loop.
\<close>

definition silent_files :: externals where
  "silent_files =
     \<lparr>wav = (\<lambda>_. AudioData_new 4 44100 1),
      default_Resample = Resample_new (AudioData_new 0 44100 1) 0 1 0 0\<rparr>"

section \<open>Envelope: properties\<close>

lemma ADSR_next_decay:
  "current_mode e = DECAY \<Longrightarrow>
     ADSR_next e = e\<lparr>envelope := max (sustain_level e) (envelope e * decay_factor e)\<rparr>"
  by (simp add: ADSR_next_def Let_def max_def)

lemma ADSR_next_decay_iter:
  "current_mode e = DECAY \<Longrightarrow> sustain_level e \<le> envelope e \<Longrightarrow>
     current_mode ((ADSR_next ^^ n) e) = DECAY \<and>
     sustain_level ((ADSR_next ^^ n) e) = sustain_level e \<and>
     decay_factor ((ADSR_next ^^ n) e) = decay_factor e \<and>
     sustain_level e \<le> envelope ((ADSR_next ^^ n) e)"
  by (induction n) (simp_all add: ADSR_next_decay)

text \<open>
  C5. An envelope in the Decay state whose amplitude is at least the sustain level keeps,
  through any number \<open>n\<close> of \<^verbatim>\<open>next()\<close> calls (and nothing else), the mode Decay and an
  amplitude at least the sustain level; each further tick multiplies by the decay factor
  and clamps the product to the sustain level once it would be at or under it. The bounds
  \<open>0 \<le> decay_factor \<le> 1\<close> of the claim are not needed.
\<close>

theorem decay_never_below_sustain:
  assumes "current_mode e = DECAY" and "sustain_level e \<le> envelope e"
  shows "current_mode ((ADSR_next ^^ n) e) = DECAY \<and>
         sustain_level e \<le> envelope ((ADSR_next ^^ n) e) \<and>
         envelope ((ADSR_next ^^ Suc n) e) =
           (if envelope ((ADSR_next ^^ n) e) * decay_factor e \<le> sustain_level e
            then sustain_level e
            else envelope ((ADSR_next ^^ n) e) * decay_factor e)"
proof -
  let ?e = "(ADSR_next ^^ n) e"
  have inv: "current_mode ?e = DECAY" "sustain_level ?e = sustain_level e"
    "decay_factor ?e = decay_factor e" "sustain_level e \<le> envelope ?e"
    using ADSR_next_decay_iter [OF assms, of n] by simp_all
  have "envelope (ADSR_next ?e) = max (sustain_level e) (envelope ?e * decay_factor e)"
    using inv by (simp add: ADSR_next_decay)
  then show ?thesis
    using inv by (simp add: max_def)
qed

theorem decay_never_below_sustain_witness:
  "current_mode \<lparr>current_mode = DECAY, envelope = 1, sustain_level = 4/5,
       attack_increment = 1/441, decay_factor = 1/2, release_factor = 1/2\<rparr> = DECAY \<and>
   sustain_level \<lparr>current_mode = DECAY, envelope = 1, sustain_level = 4/5,
       attack_increment = 1/441, decay_factor = 1/2, release_factor = 1/2\<rparr>
     \<le> envelope \<lparr>current_mode = DECAY, envelope = 1, sustain_level = 4/5,
       attack_increment = 1/441, decay_factor = 1/2, release_factor = 1/2\<rparr> \<and>
   current_mode ((ADSR_next ^^ 2) \<lparr>current_mode = DECAY, envelope = 1, sustain_level = 4/5,
       attack_increment = 1/441, decay_factor = 1/2, release_factor = 1/2\<rparr>) = DECAY \<and>
   envelope ((ADSR_next ^^ Suc 2) \<lparr>current_mode = DECAY, envelope = 1, sustain_level = 4/5,
       attack_increment = 1/441, decay_factor = 1/2, release_factor = 1/2\<rparr>) = 4/5"
proof -
  let ?e = "\<lparr>current_mode = DECAY, envelope = 1, sustain_level = 4/5,
       attack_increment = 1/441, decay_factor = 1/2, release_factor = 1/2\<rparr>"
  have m: "current_mode ?e = DECAY" and a: "sustain_level ?e \<le> envelope ?e"
    by simp_all
  have two: "envelope ((ADSR_next ^^ 2) ?e) = 4/5"
    by (simp add: numeral_2_eq_2 ADSR_next_def Let_def)
  show ?thesis
    using decay_never_below_sustain [OF m a, of 2] m a two by simp
qed

section \<open>Envelope: construction and reset\<close>

lemma expDegradeRate_total: "\<exists>f. expDegradeRate t R = Inr f"
  by (simp add: expDegradeRate_def fdiv_def)

lemma ADSR_new_ok:
  "a = 0 \<or> R = 0 \<or> fmul a R \<noteq> 0 \<Longrightarrow> \<exists>e. ADSR_new a d s r R = Inr e"
  by (auto simp: ADSR_new_def linearDegradeRate_def expDegradeRate_def fdiv_def)

lemma fmul_nonzero: "1 / 2 ^ 150 < \<bar>x * y\<bar> \<Longrightarrow> fmul x y \<noteq> 0"
  by (auto simp: fmul_def)








lemma ADSR_reset_result:
  "envelope (ADSR_reset e) = 0 \<and> current_mode (ADSR_reset e) = ATTACK"
  by (simp add: ADSR_reset_def)

text \<open>
  C7. The code at a concrete input. An envelope constructed with \<open>attack_seconds = 0\<close>
  starts with amplitude 1 in Attack; after \<^verbatim>\<open>reset()\<close> it is in Attack with amplitude 0,
  not 1: \<^verbatim>\<open>reset\<close> assigns \<^verbatim>\<open>0.0f\<close> whatever the attack time was, and does not
  return to the constructed state.
\<close>

theorem reset_after_zero_attack:
  "(case ADSR_new 0 600 (8 / 10) 4 44100 of
      Inl err \<Rightarrow> False
    | Inr e \<Rightarrow> envelope e = 1 \<and> current_mode e = ATTACK \<and>
               envelope (ADSR_reset e) = 0 \<and> current_mode (ADSR_reset e) = ATTACK)"
  by (simp add: ADSR_new_def linearDegradeRate_def expDegradeRate_def fdiv_def
      ADSR_reset_def EXP_DECAY_def)

section \<open>Resampler: properties\<close>

lemma funpow_numeral_unfold: "(f ^^ numeral n) x = f ((f ^^ pred_numeral n) x)"
  by (simp add: numeral_eq_Suc)

lemmas Resample_output_unfold =
  Resample_output_def fold_position_def data_at_def size_t_def size_t_of_int_def
  int_of_double_def unsigned_def unsigned_of_double_def fdiv_def Let_def

lemmas Resample_calls_unfold =
  Resample_next_def Resample_reset_def Resample_new_def pitchOffset_def

lemma fold_position_in_loop:
  assumes loop: "iloop_bgn r < iloop_end r" and past: "real (iloop_end r) < findex r"
    and small: "findex r < 2 ^ 31"
    and inside: "iloop_end r \<le> frame_count (audio_data r)"
  shows "\<exists>i. fold_position r = Inr (folded r, i, i + 1) \<and> i = nat \<lfloor>folded r\<rfloor> \<and>
           real (iloop_bgn r) \<le> folded r \<and> folded r < real (iloop_end r) \<and>
           iloop_bgn r \<le> i \<and> i < iloop_end r"
proof -
  define L where "L = iloop_end r - iloop_bgn r"
  define x where "x = findex r - real (iloop_bgn r)"
  define q where "q = \<lfloor>x / real L\<rfloor>"
  define p where "p = findex r - real (nat q * L)"
  have L0: "0 < L" and Lr: "real L = real (iloop_end r) - real (iloop_bgn r)"
    using loop by (simp_all add: L_def)
  have x0: "real L < x"
    using past Lr by (simp add: x_def)
  have ql: "of_int q * real L \<le> x" and qu: "x < (of_int q + 1) * real L"
    using L0 by (simp_all add: q_def floor_divide_lower floor_divide_upper)
  have q1: "1 \<le> q"
  proof -
    have "1 \<le> x / real L" using x0 L0 by simp
    then show ?thesis unfolding q_def by linarith
  qed
  have xs: "x < 2 ^ 31"
    using small by (simp add: x_def)
  have ql': "real (nat q * L) \<le> x"
    using ql q1 by simp
  have qu': "x < real (nat q * L) + real L"
    using qu q1 by (simp add: algebra_simps)
  have nq: "nat q * L < 2 ^ 31"
  proof -
    have "real (nat q * L) < 2 ^ 31" using ql' xs by linarith
    then show ?thesis by (metis of_nat_less_iff of_nat_numeral of_nat_power)
  qed
  have qs: "nat q < 2 ^ 31"
  proof -
    have "1 \<le> L" using L0 by simp
    then have "nat q * 1 \<le> nat q * L" by (rule mult_le_mono2)
    then have "nat q \<le> nat q * L" by simp
    then show ?thesis using nq by (rule le_less_trans)
  qed
  have un: "unsigned (unsigned_of_double (x / real L) * L) = nat q * L"
  proof -
    have "0 \<le> x / real L" using x0 L0 by simp
    then have "unsigned_of_double (x / real L) = nat q"
      using qs by (simp add: unsigned_of_double_def int_of_double_def unsigned_def q_def)
    then show ?thesis
      using nq by (simp add: unsigned_def)
  qed
  have pl: "real (iloop_bgn r) \<le> p" and pu: "p < real (iloop_end r)"
    using ql' qu' Lr by (simp_all add: p_def x_def)
  have p0: "0 \<le> p" using pl by linarith
  define i where "i = nat \<lfloor>p\<rfloor>"
  have il: "iloop_bgn r \<le> i" and iu: "i < iloop_end r"
    using pl pu p0 unfolding i_def by linarith+
  have i64: "int i < 2 ^ 64" "i + 1 < 2 ^ 64"
  proof -
    have "real (iloop_end r) < 2 ^ 31" using past small by linarith
    then have "iloop_end r < 2 ^ 31" by (metis of_nat_less_iff of_nat_numeral of_nat_power)
    then have "i + 1 < 2 ^ 31" using iu by linarith
    then show "int i < 2 ^ 64" "i + 1 < 2 ^ 64" by simp_all
  qed
  have si: "size_t_of_int (int_of_double p) = i"
    using p0 i64 by (simp add: size_t_of_int_def int_of_double_def i_def)
  have ne: "frame_count (audio_data r) \<noteq> i"
    using iu inside by simp
  have fp: "fold_position r = Inr (p, i, i + 1)"
    using loop past L0 un si ne i64
    by (simp add: fold_position_def fdiv_def Let_def L_def [symmetric] x_def [symmetric]
        p_def size_t_def)
  have "real (nat q) = of_int q"
    using q1 by simp
  then have "folded r = p"
    unfolding folded_def real_mod_def L_def [symmetric] x_def [symmetric] q_def [symmetric] p_def
    by (simp add: x_def)
  then show ?thesis
    using fp pl pu il iu i_def by blast
qed


text \<open>
  What \<^verbatim>\<open>output\<close> returns once the index is past the end of a loop that lies in the
  source: the index folds to \<open>folded r\<close>, and the output is the interpolation there as
  long as the upper frame \<open>i + 1\<close> is a frame of the source; when the upper frame is the
  frame count (a loop that ends with the source), it is 0.
\<close>

lemma Resample_output_in_loop:
  assumes loop: "iloop_bgn r < iloop_end r" and past: "real (iloop_end r) < findex r"
    and small: "findex r < 2 ^ 31"
    and inside: "iloop_end r \<le> frame_count (audio_data r)"
    and len: "length (fdata (audio_data r))
                = frame_count (audio_data r) * channel_count (audio_data r)"
    and ch: "ichannel r < channel_count (audio_data r)"
    and size: "length (fdata (audio_data r)) < 2 ^ 64"
  shows "Resample_output r =
           (let i = nat \<lfloor>folded r\<rfloor>; t1 = folded r - real i
            in if i + 1 < frame_count (audio_data r) then
                 Inr ((1 - t1) * (fdata (audio_data r) ! (i * channel_count (audio_data r) + ichannel r))
                      + (fdata (audio_data r) ! ((i + 1) * channel_count (audio_data r) + ichannel r)) * t1)
               else Inr 0)"
proof -
  let ?ad = "audio_data r"
  let ?c = "channel_count ?ad"
  define p where "p = folded r"
  obtain i where fp: "fold_position r = Inr (p, i, i + 1)"
    and i: "i = nat \<lfloor>p\<rfloor>"
    and iu: "i < iloop_end r"
    using fold_position_in_loop [OF loop past small inside] unfolding p_def by blast
  have p: "p = folded r" by (rule p_def)
  have ifr: "i < frame_count ?ad"
    using iu inside by simp
  show ?thesis
  proof (cases "i + 1 < frame_count ?ad")
    case True
    have "(i + 2) * ?c \<le> frame_count ?ad * ?c"
      using True by (intro mult_le_mono1) simp
    then have in1: "(i + 1) * ?c + ichannel r < length (fdata ?ad)"
      using ch len by (simp add: algebra_simps)
    then have in0: "i * ?c + ichannel r < length (fdata ?ad)"
      by (simp add: algebra_simps)
    have "Resample_output r =
            Inr ((1 - (p - real i)) * (fdata ?ad ! (i * ?c + ichannel r))
                 + (fdata ?ad ! ((i + 1) * ?c + ichannel r)) * (p - real i))"
      using True in0 in1 size
      by (simp add: Resample_output_def fp data_at_def size_t_def Let_def)
    then show ?thesis
      using True by (simp add: Let_def p [symmetric] i [symmetric])
  next
    case False
    have "Resample_output r = Inr 0"
      using False ifr by (simp add: Resample_output_def fp Let_def)
    then show ?thesis
      using False by (simp add: Let_def p [symmetric] i [symmetric])
  qed
qed

lemma folded_periodic:
  assumes loop: "iloop_bgn r < iloop_end r"
    and L: "L = iloop_end r - iloop_bgn r"
  shows "folded (r\<lparr>findex := findex r + real L\<rparr>) = folded r"
proof -
  define x where "x = findex r - real (iloop_bgn r)"
  have L0: "0 < real L"
    using loop by (simp add: L)
  have "(x + real L) / real L = x / real L + 1"
    using L0 by (simp add: field_simps)
  then have fl: "\<lfloor>(x + real L) / real L\<rfloor> = \<lfloor>x / real L\<rfloor> + 1"
    by simp
  have m: "real_mod (x + real L) (real L) = real_mod x (real L)"
    by (simp add: real_mod_def fl algebra_simps)
  have a: "findex r + real L - real (iloop_bgn r) = x + real L"
    by (simp add: x_def)
  have "folded (r\<lparr>findex := findex r + real L\<rparr>)
          = real (iloop_bgn r) + real_mod (findex r + real L - real (iloop_bgn r)) (real L)"
    by (simp add: folded_def L)
  also have "\<dots> = real (iloop_bgn r) + real_mod x (real L)"
    unfolding a m ..
  also have "\<dots> = folded r"
    by (simp add: folded_def L x_def)
  finally show ?thesis .
qed

text \<open>The output is periodic in the index, with the length of the loop as period.\<close>

lemma Resample_output_periodic:
  assumes loop: "iloop_bgn r < iloop_end r" and past: "real (iloop_end r) < findex r"
    and L: "L = iloop_end r - iloop_bgn r"
    and small: "findex r + real L < 2 ^ 31"
    and inside: "iloop_end r \<le> frame_count (audio_data r)"
    and len: "length (fdata (audio_data r))
                = frame_count (audio_data r) * channel_count (audio_data r)"
    and ch: "ichannel r < channel_count (audio_data r)"
    and size: "length (fdata (audio_data r)) < 2 ^ 64"
  shows "Resample_output (r\<lparr>findex := findex r + real L\<rparr>) = Resample_output r"
proof -
  define r' where "r' = r\<lparr>findex := findex r + real L\<rparr>"
  have same: "audio_data r' = audio_data r" "ichannel r' = ichannel r"
    "iloop_bgn r' = iloop_bgn r" "iloop_end r' = iloop_end r"
    "findex r' = findex r + real L"
    by (simp_all add: r'_def)
  have small0: "findex r < 2 ^ 31"
    using small by linarith
  have past': "real (iloop_end r') < findex r'"
    using past by (simp add: same)
  have f: "folded r' = folded r"
    unfolding r'_def using folded_periodic [OF loop L] .
  have "Resample_output r' =
           (let i = nat \<lfloor>folded r'\<rfloor>; t1 = folded r' - real i
            in if i + 1 < frame_count (audio_data r') then
                 Inr ((1 - t1) * (fdata (audio_data r') ! (i * channel_count (audio_data r') + ichannel r'))
                      + (fdata (audio_data r') ! ((i + 1) * channel_count (audio_data r') + ichannel r')) * t1)
               else Inr 0)"
    by (rule Resample_output_in_loop) (use loop past' small inside len ch size in \<open>simp_all add: same\<close>)
  also have "\<dots> = Resample_output r"
    unfolding f same
    by (rule Resample_output_in_loop [OF loop past small0 inside len ch size, symmetric])
  finally show ?thesis
    by (simp add: r'_def)
qed

text \<open>
  What \<^verbatim>\<open>output\<close> returns without a loop at or past the last frame: silence, except in
  the window of one thousandth after the frame count, where it reads one frame past the
  buffer. The final sample is never returned.
\<close>

lemma Resample_output_past_end:
  assumes noloop: "\<not> iloop_bgn r < iloop_end r"
    and frames: "1 \<le> frame_count (audio_data r)"
    and past: "real (frame_count (audio_data r)) - 1 \<le> findex r"
    and small: "findex r < 2 ^ 31"
    and len: "length (fdata (audio_data r))
                = frame_count (audio_data r) * channel_count (audio_data r)"
    and size: "length (fdata (audio_data r)) + ichannel r < 2 ^ 64"
  shows "Resample_output r =
           (if real (frame_count (audio_data r)) \<le> findex r \<and>
               findex r < real (frame_count (audio_data r)) + 1 / 1000
            then Inl OutOfBounds else Inr 0)"
proof -
  let ?ad = "audio_data r"
  define i where "i = nat \<lfloor>findex r\<rfloor>"
  have f0: "0 \<le> findex r"
    using frames past by linarith
  have ir: "real i \<le> findex r" "findex r < real i + 1"
    using f0 unfolding i_def by linarith+
  have i31: "i < 2 ^ 31"
  proof -
    have "real i < 2 ^ 31" using ir small by linarith
    then show ?thesis by (metis of_nat_less_iff of_nat_numeral of_nat_power)
  qed
  have fl: "0 \<le> \<lfloor>findex r\<rfloor>" "\<lfloor>findex r\<rfloor> < 2 ^ 64"
  proof -
    show "0 \<le> \<lfloor>findex r\<rfloor>" using f0 by simp
    have "(2::real) ^ 31 \<le> 2 ^ 64" by simp
    then have "findex r < 2 ^ 64" using small by linarith
    then show "\<lfloor>findex r\<rfloor> < 2 ^ 64" by (simp add: floor_less_iff)
  qed
  have si: "size_t_of_int (int_of_double (findex r)) = i"
    using f0 fl by (simp add: size_t_of_int_def int_of_double_def i_def)
  have fp: "fold_position r = Inr (findex r, i, i + 1)"
    using noloop i31 by (simp add: fold_position_def Let_def si size_t_def)
  have ge: "\<not> i + 1 < frame_count ?ad"
  proof -
    have "real (frame_count ?ad) < real i + 2" using past ir by linarith
    then have "frame_count ?ad < i + 2" by (metis of_nat_less_iff of_nat_add of_nat_numeral)
    then show ?thesis by simp
  qed
  have eq: "frame_count ?ad = i \<and> findex r - real i < 1 / 1000 \<longleftrightarrow>
            real (frame_count ?ad) \<le> findex r \<and>
            findex r < real (frame_count ?ad) + 1 / 1000"
  proof
    assume "frame_count ?ad = i \<and> findex r - real i < 1 / 1000"
    then show "real (frame_count ?ad) \<le> findex r \<and>
               findex r < real (frame_count ?ad) + 1 / 1000"
      using ir by auto
  next
    assume a: "real (frame_count ?ad) \<le> findex r \<and>
               findex r < real (frame_count ?ad) + 1 / 1000"
    then have "\<lfloor>findex r\<rfloor> = int (frame_count ?ad)"
      by (intro floor_unique) simp_all
    then have "i = frame_count ?ad"
      by (simp add: i_def)
    then show "frame_count ?ad = i \<and> findex r - real i < 1 / 1000"
      using a by simp
  qed
  show ?thesis
  proof (cases "frame_count ?ad = i \<and> findex r - real i < 1 / 1000")
    case True
    then have out: "Resample_output r = Inl OutOfBounds"
      using ge len size
      by (simp add: Resample_output_def fp Let_def data_at_def size_t_def)
    have c: "real (frame_count ?ad) \<le> findex r \<and>
             findex r < real (frame_count ?ad) + 1 / 1000"
      using True eq by blast
    show ?thesis
      unfolding out by (rule if_P [symmetric]) (rule c)
  next
    case False
    then have out: "Resample_output r = Inr 0"
      using ge by (auto simp: Resample_output_def fp Let_def)
    have c: "\<not> (real (frame_count ?ad) \<le> findex r \<and>
                findex r < real (frame_count ?ad) + 1 / 1000)"
      using False eq by blast
    show ?thesis
      unfolding out by (rule if_not_P [symmetric]) (rule c)
  qed
qed

text \<open>
  C3. The code at a concrete input. The source has four frames and the loop is the whole
  source, frames 0 to 4. After \<^verbatim>\<open>reset()\<close> and fifteen \<^verbatim>\<open>next()\<close> at speed 1/2 the index is
  7.5, past the loop end; the folded position is 3.5, so \<open>i = 3\<close> and the upper frame
  \<open>i + 1 = 4\<close> reaches the frame count. The code tests \<^verbatim>\<open>frames() == i\<close>, not the upper
  frame, so \<open>e\<close> stays 4 and is not wrapped to the loop begin; no interpolation is taken and
  the output is 0, where the interpolation between frame 3 and frame 0 is 5/2.
\<close>

theorem loop_to_last_frame_is_silent:
  "findex ((Resample_next ^^ 15) (Resample_reset (Resample_new ramp4 0 (1 / 2) 0 4))) = 15 / 2 \<and>
   folded ((Resample_next ^^ 15) (Resample_reset (Resample_new ramp4 0 (1 / 2) 0 4))) = 7 / 2 \<and>
   fold_position ((Resample_next ^^ 15) (Resample_reset (Resample_new ramp4 0 (1 / 2) 0 4)))
     = Inr (7 / 2, 3, 4) \<and>
   Resample_output ((Resample_next ^^ 15) (Resample_reset (Resample_new ramp4 0 (1 / 2) 0 4)))
     = Inr 0"
  by (simp add: Resample_output_unfold Resample_calls_unfold ramp4_def funpow_numeral_unfold
      folded_def real_mod_def)

text \<open>
  C4. The code at a concrete input. The same source without a loop: after \<^verbatim>\<open>reset()\<close> and
  eight \<^verbatim>\<open>next()\<close> at speed 1/2 the index is 4, the frame count, within the epsilon of the
  end. The code then returns \<^verbatim>\<open>data()[i * channels + ichannel]\<close> with \<open>i = 4\<close>: a read one
  frame past the buffer, not the final sample (frame 3, value 4).
\<close>

theorem output_at_end_reads_past_buffer:
  "findex ((Resample_next ^^ 8) (Resample_reset (Resample_new ramp4 0 (1 / 2) 0 0))) = 4 \<and>
   Resample_output ((Resample_next ^^ 8) (Resample_reset (Resample_new ramp4 0 (1 / 2) 0 0)))
     = Inl OutOfBounds"
  by (simp add: Resample_output_unfold Resample_calls_unfold ramp4_def funpow_numeral_unfold)

lemma Resample_run_forward:
  "0 < multiplier r \<Longrightarrow> 0 < speedup r \<Longrightarrow> RReset \<notin> set cs \<Longrightarrow>
     findex r \<le> findex (Resample_run cs r)"
proof (induction cs arbitrary: r)
  case Nil
  then show ?case by simp
next
  case (Cons c cs)
  have step: "0 < multiplier (Resample_do c r) \<and> 0 < speedup (Resample_do c r) \<and>
              findex r \<le> findex (Resample_do c r)"
    using Cons.prems by (cases c) (simp_all add: Resample_calls_unfold)
  then have "findex (Resample_do c r) \<le> findex (Resample_run cs (Resample_do c r))"
    using Cons.prems by (intro Cons.IH) simp_all
  with step show ?case by simp
qed

lemma new_resampler_output:
  assumes frames: "2 \<le> frame_count ad"
    and len: "length (fdata ad) = frame_count ad * channel_count ad"
    and ch: "ch < channel_count ad"
    and size: "length (fdata ad) < 2 ^ 64"
  shows "Resample_output (Resample_new ad ch f b e) =
           Inr ((1 - 8 / 10) * (fdata ad ! ch) + (fdata ad ! (channel_count ad + ch)) * (8 / 10))"
proof -
  let ?r = "Resample_new ad ch f b e"
  have pos: "fold_position ?r = Inr (8 / 10, 0, 1)"
  proof (cases "b < e")
    case True
    then have "1 \<le> real e" by simp
    then show ?thesis
      by (simp add: fold_position_def Resample_new_def size_t_of_int_def size_t_def
          int_of_double_def)
  next
    case False
    then show ?thesis
      by (simp add: fold_position_def Resample_new_def size_t_of_int_def size_t_def
          int_of_double_def)
  qed
  have "2 * channel_count ad \<le> frame_count ad * channel_count ad"
    using frames by (intro mult_le_mono1)
  then have in1: "channel_count ad + ch < length (fdata ad)" and in0: "ch < length (fdata ad)"
    using ch len by linarith+
  have "Resample_output ?r =
          Inr ((8 / 10 - 1) * - (fdata ad ! ch) + (fdata ad ! (channel_count ad + ch)) * (8 / 10))"
    using frames in0 in1 size
    by (simp add: Resample_output_def pos data_at_def size_t_def Let_def)
       (simp add: Resample_new_def)
  then show ?thesis by simp
qed

text \<open>
  C9. A newly constructed resampler has the index 0.8. On a source of at least two frames
  (the buffer holding \<open>frames \<times> channels\<close> samples) its first output is the interpolation
  of frame 0 and frame 1 with the weight 0.8 on frame 1, whatever loop it was given.
  \<^verbatim>\<open>reset()\<close> sets the index to 0, and it alone does: with a positive speed factor, no
  sequence of \<^verbatim>\<open>next()\<close> and \<^verbatim>\<open>pitchOffset()\<close> calls brings the index under 0.8.
\<close>

theorem new_resampler_index:
  assumes "2 \<le> frame_count ad"
    and "length (fdata ad) = frame_count ad * channel_count ad"
    and "ch < channel_count ad"
    and "length (fdata ad) < 2 ^ 64"
  shows "findex (Resample_new ad ch f b e) = 8 / 10 \<and>
         Resample_output (Resample_new ad ch f b e) =
           Inr ((1 - 8 / 10) * (fdata ad ! ch) + (fdata ad ! (channel_count ad + ch)) * (8 / 10)) \<and>
         findex (Resample_reset r) = 0 \<and>
         (0 < f \<and> RReset \<notin> set cs \<longrightarrow>
            8 / 10 \<le> findex (Resample_run cs (Resample_new ad ch f b e)))"
proof -
  have "0 < f \<Longrightarrow> RReset \<notin> set cs \<Longrightarrow>
          8 / 10 \<le> findex (Resample_run cs (Resample_new ad ch f b e))"
    using Resample_run_forward [of "Resample_new ad ch f b e" cs]
    by (simp add: Resample_new_def)
  then show ?thesis
    using new_resampler_output [OF assms]
    by (simp add: Resample_reset_def) (simp add: Resample_new_def)
qed

theorem new_resampler_index_witness:
  "2 \<le> frame_count ramp4 \<and>
   length (fdata ramp4) = frame_count ramp4 * channel_count ramp4 \<and>
   0 < channel_count ramp4 \<and> length (fdata ramp4) < 2 ^ 64 \<and>
   findex (Resample_new ramp4 0 2 1 3) = 8 / 10 \<and>
   Resample_output (Resample_new ramp4 0 2 1 3) = Inr (9 / 5) \<and>
   findex (Resample_reset (Resample_next (Resample_new ramp4 0 2 1 3))) = 0 \<and>
   8 / 10 \<le> findex (Resample_run [RNext, RPitchOffset 100, RNext] (Resample_new ramp4 0 2 1 3))"
proof -
  have h: "2 \<le> frame_count ramp4"
    "length (fdata ramp4) = frame_count ramp4 * channel_count ramp4"
    "0 < channel_count ramp4" "length (fdata ramp4) < 2 ^ 64"
    by (simp_all add: ramp4_def)
  have v: "fdata ramp4 ! 0 = 1" "fdata ramp4 ! (channel_count ramp4 + 0) = 2"
    by (simp_all add: ramp4_def)
  show ?thesis
    using new_resampler_index [OF h, of 2 1 3 "Resample_next (Resample_new ramp4 0 2 1 3)"
        "[RNext, RPitchOffset 100, RNext]"] h v
    by simp
qed

section \<open>Synthesizer: the loops\<close>

lemma for_notes_from:
  "0 \<le> i \<Longrightarrow> i \<le> MAX_NOTES \<Longrightarrow> int (length ps) = MAX_NOTES \<Longrightarrow>
     for_notes i f ps = take (nat i) ps @ map f (drop (nat i) ps)"
proof (induction i f ps rule: for_notes.induct)
  case (1 i f ps)
  show ?case
  proof (cases "i < MAX_NOTES")
    case True
    with "1.prems" have lt: "nat i < length ps" by linarith
    have suc: "nat (i + 1) = Suc (nat i)" using "1.prems" by simp
    have "for_notes i f ps = for_notes (i + 1) f (ps[nat i := f (ps ! nat i)])"
      using True by (subst for_notes.simps) simp
    also have "\<dots> = take (nat (i + 1)) (ps[nat i := f (ps ! nat i)])
                     @ map f (drop (nat (i + 1)) (ps[nat i := f (ps ! nat i)]))"
      using True "1.prems" by (intro "1.IH") simp_all
    also have "\<dots> = (take (nat i) ps @ [f (ps ! nat i)]) @ map f (drop (Suc (nat i)) ps)"
      using lt by (simp add: suc take_Suc_conv_app_nth)
    also have "\<dots> = take (nat i) ps @ map f (drop (nat i) ps)"
      using lt by (simp add: Cons_nth_drop_Suc [symmetric])
    finally show ?thesis .
  next
    case False
    with "1.prems" have "nat i = length ps" by linarith
    then show ?thesis using False by (subst for_notes.simps) simp
  qed
qed

lemma for_notes_map:
  "int (length ps) = MAX_NOTES \<Longrightarrow> for_notes 0 f ps = map f ps"
  using for_notes_from [of 0 ps f] by (simp add: MAX_NOTES_def)

lemma scan_not_held:
  "0 \<le> i \<Longrightarrow> hi \<le> int (length ps) \<Longrightarrow> index < 0 \<Longrightarrow> \<forall>n\<in>set ps. key n \<noteq> k \<Longrightarrow>
     scan ps k hi index i = Inr (NotHeld index (max i hi))"
proof (induction ps k hi index i rule: scan.induct)
  case (1 ps k hi index i)
  show ?case
  proof (cases "i < hi")
    case True
    with "1.prems" have lt: "nat i < length ps" by linarith
    then have nk: "key (ps ! nat i) \<noteq> k" using "1.prems" by simp
    have "scan ps k hi index i = scan ps k hi index (i + 1)"
      using True "1.prems" nk by (subst scan.simps) simp
    also have "\<dots> = Inr (NotHeld index (max (i + 1) hi))"
      using "1.IH" [OF True] True "1.prems" nk by simp
    finally show ?thesis using True by (simp add: max_def)
  next
    case False
    then show ?thesis by (subst scan.simps) (simp add: max_def)
  qed
qed

section \<open>Synthesizer: note-on\<close>

lemma SetSound_fields:
  "SetSound d r n = Inr n' \<Longrightarrow>
     key n' = key n \<and> vel n' = vel n \<and> inst n' = inst n \<and> env n' = env n"
  by (auto simp: SetSound_def and_then_def fdiv_def split: if_splits)

lemma Play_fields:
  "Play X r n = Inr n' \<Longrightarrow>
     key n' = key n \<and> vel n' = vel n \<and> inst n' = inst n \<and> env n' = env n"
  unfolding Play_def by (auto dest: SetSound_fields split: if_splits)

lemma Note_new_fields:
  "Note_new X k v p r = Inr n \<Longrightarrow> key n = k \<and> vel n = v \<and> inst n = p"
  unfolding Note_new_def and_then_def
  by (auto dest: Play_fields split: sum.splits)

lemma SetSound_ok:
  "sampling_rate (source d) \<noteq> 0 \<Longrightarrow> \<exists>n'. SetSound d r n = Inr n'"
  by (simp add: SetSound_def and_then_def fdiv_def)

lemma Play_ok:
  "\<forall>f. sampling_rate (wav X f) \<noteq> 0 \<Longrightarrow> \<exists>n'. Play X r n = Inr n'"
  unfolding Play_def
  by (simp add: SetSound_ok grand0_def grand1_def grand2_def grand3_def grand4_def
      grand5_def grand6_def grand7_def cello_def oboe_def WaveData_new_def)

lemma Note_new_ok:
  "\<forall>f. sampling_rate (wav X f) \<noteq> 0 \<Longrightarrow> r = 0 \<or> 1 \<le> \<bar>r\<bar> \<Longrightarrow>
     \<exists>n. Note_new X k v p r = Inr n"
proof -
  assume ok: "\<forall>f. sampling_rate (wav X f) \<noteq> 0" and r: "r = 0 \<or> 1 \<le> \<bar>r\<bar>"
  have "r = 0 \<or> fmul (1 / 100) r \<noteq> 0"
  proof (cases "r = 0")
    case False
    with r have "1 \<le> \<bar>r\<bar>" by simp
    moreover have "(1::real) / 2 ^ 150 < 1 / 100"
      by (intro divide_strict_left_mono) simp_all
    ultimately have "1 / 2 ^ 150 < \<bar>1 / 100 * r\<bar>"
      by (simp add: abs_mult)
    then show ?thesis using fmul_nonzero by blast
  qed simp
  then obtain e where "ADSR_new (1 / 100) 600 (8 / 10) 4 r = Inr e"
    using ADSR_new_ok [of "1 / 100" r 600 "8 / 10" 4] by blast
  then show ?thesis
    using Play_ok [OF ok] by (simp add: Note_new_def and_then_def)
qed

lemma WavetableSynth_new_ok:
  assumes "\<forall>f. sampling_rate (wav X f) \<noteq> 0" and "R \<noteq> 0"
  shows "\<exists>s. WavetableSynth_new X devno R = Inr s"
proof -
  have "\<exists>n0. Note_new X (- 1) 0 Default 44100 = Inr n0"
    by (rule Note_new_ok [OF assms(1)]) simp
  then obtain n0 where n0: "Note_new X (- 1) 0 Default 44100 = Inr n0"
    by blast
  have "1 \<le> \<bar>R\<bar>"
    using assms(2) by linarith
  then have "(1::real) \<le> of_int \<bar>R\<bar>"
    by (simp only: of_int_1_le_iff)
  then have "1 \<le> \<bar>real_of_int R\<bar>"
    by simp
  then obtain n where n: "Note_new X (- 1) 0 Default (real_of_int R) = Inr n"
    using Note_new_ok [OF assms(1), of "real_of_int R"] by blast
  show ?thesis
    using assms(2) by (simp add: WavetableSynth_new_def and_then_def n0 n fdiv_def)
qed

lemma WavetableSynth_new_result:
  assumes "WavetableSynth_new X devno R = Inr s"
  shows "\<exists>n. Note_new X (- 1) 0 Default (real_of_int R) = Inr n \<and> R \<noteq> 0 \<and>
           s = \<lparr>playing = replicate (nat MAX_NOTES) n,
                bend = 0, rate = real_of_int R, vibrato = 0, mod_w = 0, vol = 1 / 2,
                mphase = 0, dphase = REV_TO_HZ / real_of_int R, newest = 0,
                patch = Default\<rparr>"
proof -
  from assms obtain n0 dp n where
    n0: "Note_new X (- 1) 0 Default 44100 = Inr n0" and
    dp: "fdiv REV_TO_HZ (real_of_int R) = Inr dp" and
    n: "Note_new X (- 1) 0 Default (real_of_int R) = Inr n" and
    s: "s = \<lparr>playing = for_notes 0 (\<lambda>_. n) (replicate (nat MAX_NOTES) n0),
             bend = 0, rate = real_of_int R, vibrato = 0, mod_w = 0, vol = 1 / 2,
             mphase = 0, dphase = dp, newest = 0, patch = Default\<rparr>"
    by (auto simp: WavetableSynth_new_def and_then_def split: sum.splits)
  have "for_notes 0 (\<lambda>_. n) (replicate (nat MAX_NOTES) n0) = replicate (nat MAX_NOTES) n"
    by (simp add: for_notes_map MAX_NOTES_def map_replicate_const)
  moreover have "R \<noteq> 0 \<and> dp = REV_TO_HZ / real_of_int R"
    using dp by (auto simp: fdiv_def split: if_splits)
  ultimately show ?thesis
    using n s by simp
qed

lemma WavetableSynth_new_fresh:
  assumes "WavetableSynth_new X devno R = Inr s"
  shows "wf_synth s" and "newest s = 0" and "patch s = Default" and "vibrato s = 0"
    and "bend s = 0" and "rate s = real_of_int R"
    and "\<forall>n\<in>set (playing s). key n = - 1 \<and> inst n = Default"
proof -
  from WavetableSynth_new_result [OF assms] obtain n where
    n: "Note_new X (- 1) 0 Default (real_of_int R) = Inr n" and
    s: "s = \<lparr>playing = replicate (nat MAX_NOTES) n,
                bend = 0, rate = real_of_int R, vibrato = 0, mod_w = 0, vol = 1 / 2,
                mphase = 0, dphase = REV_TO_HZ / real_of_int R, newest = 0,
                patch = Default\<rparr>"
    by blast
  show "wf_synth s"
    by (simp add: wf_synth_def s MAX_NOTES_def)
  show "newest s = 0" "patch s = Default" "vibrato s = 0" "bend s = 0" "rate s = real_of_int R"
    by (simp_all add: s)
  show "\<forall>n\<in>set (playing s). key n = - 1 \<and> inst n = Default"
    using Note_new_fields [OF n] by (simp add: s)
qed

lemma onNoteOn_not_held:
  assumes wf: "wf_synth s"
    and nh: "\<forall>n\<in>set (playing s). key n \<noteq> note0 * CENTS_SCALE"
  shows "onNoteOn X s chan note0 velocity =
     (let index = (if newest s + 1 = MAX_NOTES then 0 else newest s + 1);
          ps1 = (playing s)[nat index :=
                  (playing s ! nat index)\<lparr>key := short_of_int (note0 * CENTS_SCALE),
                                           vel := real_of_int velocity * RATIO_7BIT\<rparr>];
          ps2 = ps1[nat (newest s) := (ps1 ! nat (newest s))\<lparr>inst := patch s\<rparr>]
      in and_then (Play X (rate s) (ps2 ! nat index))
           (\<lambda>n'. Inr (s\<lparr>playing := ps2[nat index := n'\<lparr>env := ADSR_reset (env n')\<rparr>],
                         newest := index\<rparr>)))"
proof -
  have len: "int (length (playing s)) = MAX_NOTES"
    and n0: "0 \<le> newest s" and n1: "newest s < MAX_NOTES"
    using wf by (simp_all add: wf_synth_def)
  have s1: "scan (playing s) (note0 * CENTS_SCALE) MAX_NOTES (- 1) (newest s)
              = Inr (NotHeld (- 1) MAX_NOTES)"
    using scan_not_held [OF n0 _ _ nh, of MAX_NOTES "- 1"] len n1 by (simp add: max_def)
  have s2: "scan (playing s) (note0 * CENTS_SCALE) (newest s) (- 1) 0
              = Inr (NotHeld (- 1) (newest s))"
    using scan_not_held [OF _ _ _ nh, of 0 "newest s" "- 1"] len n0 n1 by (simp add: max_def)
  show ?thesis
    using len n0 n1
    by (simp add: onNoteOn_def s1 s2 set_slot_def slot_def and_then_def Let_def)
qed

lemma onNoteOn_chosen_slot:
  assumes wf: "wf_synth s"
    and nh: "\<forall>n\<in>set (playing s). key n \<noteq> note0 * CENTS_SCALE"
    and res: "onNoteOn X s chan note0 velocity = Inr s'"
    and index: "index = (if newest s + 1 = MAX_NOTES then 0 else newest s + 1)"
  shows "newest s' = index" and "wf_synth s'"
    and "key (playing s' ! nat index) = short_of_int (note0 * CENTS_SCALE)"
    and "vel (playing s' ! nat index) = real_of_int velocity * RATIO_7BIT"
    and "envelope (env (playing s' ! nat index)) = 0"
    and "current_mode (env (playing s' ! nat index)) = ATTACK"
    and "inst (playing s' ! nat index) = inst (playing s ! nat index)"
    and "inst (playing s' ! nat (newest s)) = patch s"
proof -
  have len: "int (length (playing s)) = MAX_NOTES"
    and n0: "0 \<le> newest s" and n1: "newest s < MAX_NOTES"
    using wf by (simp_all add: wf_synth_def)
  have i0: "0 \<le> index" and i1: "index < MAX_NOTES" and ne: "nat index \<noteq> nat (newest s)"
    using n0 n1 by (auto simp: index MAX_NOTES_def)
  have il: "nat index < length (playing s)" and nl: "nat (newest s) < length (playing s)"
    using len i0 i1 n0 n1 by linarith+
  define ps1 where "ps1 = (playing s)[nat index :=
                  (playing s ! nat index)\<lparr>key := short_of_int (note0 * CENTS_SCALE),
                                           vel := real_of_int velocity * RATIO_7BIT\<rparr>]"
  define ps2 where "ps2 = ps1[nat (newest s) := (ps1 ! nat (newest s))\<lparr>inst := patch s\<rparr>]"
  have "onNoteOn X s chan note0 velocity =
          and_then (Play X (rate s) (ps2 ! nat index))
            (\<lambda>n'. Inr (s\<lparr>playing := ps2[nat index := n'\<lparr>env := ADSR_reset (env n')\<rparr>],
                          newest := index\<rparr>))"
    using onNoteOn_not_held [OF wf nh, of X chan velocity]
    by (simp add: Let_def index ps1_def ps2_def)
  with res obtain n' where n': "Play X (rate s) (ps2 ! nat index) = Inr n'"
    and s': "s' = s\<lparr>playing := ps2[nat index := n'\<lparr>env := ADSR_reset (env n')\<rparr>],
                     newest := index\<rparr>"
    by (auto simp: and_then_def split: sum.splits)
  have at: "ps2 ! nat index =
              (playing s ! nat index)\<lparr>key := short_of_int (note0 * CENTS_SCALE),
                                       vel := real_of_int velocity * RATIO_7BIT\<rparr>"
    using il nl ne by (simp add: ps2_def ps1_def)
  have l2: "length ps2 = length (playing s)"
    by (simp add: ps2_def ps1_def)
  have got: "playing s' ! nat index = n'\<lparr>env := ADSR_reset (env n')\<rparr>"
    using il by (simp add: s' l2)
  note f = Play_fields [OF n']
  show "newest s' = index"
    by (simp add: s')
  show "wf_synth s'"
    using len i0 i1 by (simp add: wf_synth_def s' l2)
  show "key (playing s' ! nat index) = short_of_int (note0 * CENTS_SCALE)"
    and "vel (playing s' ! nat index) = real_of_int velocity * RATIO_7BIT"
    and "inst (playing s' ! nat index) = inst (playing s ! nat index)"
    using f by (simp_all add: got at)
  show "envelope (env (playing s' ! nat index)) = 0"
    and "current_mode (env (playing s' ! nat index)) = ATTACK"
    by (simp_all add: got ADSR_reset_def)
  show "inst (playing s' ! nat (newest s)) = patch s"
    using ne nl il by (simp add: s' ps2_def ps1_def)
qed

section \<open>Synthesizer: the array and \<open>newest\<close> stay well-formed\<close>

lemma scan_index_stuck:
  "index < 0 \<Longrightarrow> scan ps k hi index i = Inr (NotHeld index' i') \<Longrightarrow> index' = index"
proof (induction ps k hi index i rule: scan.induct)
  case (1 ps k hi index i)
  show ?case
  proof (cases "i < hi")
    case True
    with "1.prems" have ok: "\<not> (i < 0 \<or> int (length ps) \<le> i)" and nk: "key (ps ! nat i) \<noteq> k"
      by (subst (asm) scan.simps, simp split: if_splits)+
    have "scan ps k hi index i = scan ps k hi index (i + 1)"
      using True ok nk "1.prems"(1) by (subst scan.simps) simp
    then show ?thesis
      using "1.IH" [OF True ok nk] "1.prems" by simp
  next
    case False
    then show ?thesis
      using "1.prems" by (subst (asm) scan.simps) simp
  qed
qed

lemma set_slot_length:
  "set_slot ps i f = Inr ps' \<Longrightarrow> length ps' = length ps"
  by (auto simp: set_slot_def slot_def and_then_def split: if_splits)

lemma onNoteOn_wf:
  assumes wf: "wf_synth s" and res: "onNoteOn X s chan note0 velocity = Inr s'"
  shows "wf_synth s'"
proof -
  have len: "int (length (playing s)) = MAX_NOTES"
    and n0: "0 \<le> newest s" and n1: "newest s < MAX_NOTES"
    using wf by (simp_all add: wf_synth_def)
  let ?k = "note0 * CENTS_SCALE"
  from res obtain r1 where r1: "scan (playing s) ?k MAX_NOTES (- 1) (newest s) = Inr r1"
    by (auto simp: onNoteOn_def Let_def and_then_def split: sum.splits)
  show ?thesis
  proof (cases r1)
    case (Retrigger i)
    with res r1 obtain ps where "set_slot (playing s) i (retrigger velocity) = Inr ps"
      and "s' = s\<lparr>playing := ps\<rparr>"
      by (auto simp: onNoteOn_def Let_def and_then_def split: sum.splits)
    then show ?thesis
      using wf set_slot_length by (simp add: wf_synth_def)
  next
    case (NotHeld index1 i1)
    then have i1: "index1 = - 1"
      using scan_index_stuck [of "- 1" "playing s" ?k MAX_NOTES "newest s"] r1 by simp
    from res r1 NotHeld obtain r2 where r2: "scan (playing s) ?k (newest s) (- 1) 0 = Inr r2"
      by (auto simp: onNoteOn_def Let_def and_then_def i1 split: sum.splits)
    show ?thesis
    proof (cases r2)
      case (Retrigger i)
      with res r1 r2 NotHeld i1 obtain ps where "set_slot (playing s) i (retrigger velocity) = Inr ps"
        and "s' = s\<lparr>playing := ps\<rparr>"
        by (auto simp: onNoteOn_def Let_def and_then_def split: sum.splits)
      then show ?thesis
        using wf set_slot_length by (simp add: wf_synth_def)
    next
      case (NotHeld index2 i2)
      then have i2: "index2 = - 1"
        using scan_index_stuck [of "- 1" "playing s" ?k "newest s" 0] r2 by simp
      define index where "index = (if newest s + 1 = MAX_NOTES then 0 else newest s + 1)"
      from res r1 r2 \<open>r1 = NotHeld index1 i1\<close> NotHeld i1 i2
      obtain ps1 ps2 n' where "set_slot (playing s) index
              (\<lambda>n. n\<lparr>key := short_of_int ?k, vel := real_of_int velocity * RATIO_7BIT\<rparr>) = Inr ps1"
        and "set_slot ps1 i2 (\<lambda>n. n\<lparr>inst := patch s\<rparr>) = Inr ps2"
        and s': "s' = s\<lparr>playing := ps2[nat index := n'\<lparr>env := ADSR_reset (env n')\<rparr>],
                         newest := index\<rparr>"
        by (auto simp: onNoteOn_def Let_def and_then_def index_def split: sum.splits)
      then have "length ps2 = length (playing s)"
        using set_slot_length by metis
      moreover have "0 \<le> index \<and> index < MAX_NOTES"
        using n0 n1 by (auto simp: index_def MAX_NOTES_def)
      ultimately show ?thesis
        using len by (simp add: wf_synth_def s')
    qed
  qed
qed

lemma onPatchChange_wf:
  "wf_synth s \<Longrightarrow> onPatchChange X s chan v = Inr s' \<Longrightarrow> wf_synth s'"
  by (auto simp: onPatchChange_def Let_def and_then_def wf_synth_def for_notes_map
      split: sum.splits)

lemma callbacks_wf:
  assumes "wf_synth s"
  shows "wf_synth (WavetableSynth_next s)" and "wf_synth (onNoteOff s chan note0)"
    and "wf_synth (onPitchWheelChange s chan b)" and "wf_synth (onModulationWheelChange s chan v)"
    and "wf_synth (onVolumeChange s chan v)"
  using assms
  by (simp_all add: wf_synth_def WavetableSynth_next_def onNoteOff_def onPitchWheelChange_def
      onModulationWheelChange_def onVolumeChange_def Let_def for_notes_map)

lemma silent_files_rates: "\<forall>f. sampling_rate (wav silent_files f) \<noteq> 0"
  by (simp add: silent_files_def AudioData_new_def)

lemma onNoteOn_fresh:
  assumes s: "WavetableSynth_new silent_files devno R = Inr s"
  shows "\<exists>n'. Play silent_files (rate s)
                 ((playing s ! 1)\<lparr>key := 6000, vel := 100 / 127\<rparr>) = Inr n' \<and>
           onNoteOn silent_files s 0 60 100 =
             Inr (s\<lparr>playing := (playing s)[1 := n'\<lparr>env := ADSR_reset (env n')\<rparr>],
                    newest := 1\<rparr>)"
proof -
  note fr = WavetableSynth_new_fresh [OF s]
  have len: "length (playing s) = 10"
    using fr(1) by (simp add: wf_synth_def MAX_NOTES_def)
  have keys: "\<forall>n\<in>set (playing s). key n \<noteq> 60 * CENTS_SCALE"
    using fr(7) by (simp add: CENTS_SCALE_def)
  have i0: "inst (playing s ! 0) = patch s"
    using fr(7) fr(3) len by simp
  have e0: "(playing s ! 0)\<lparr>inst := patch s\<rparr> = playing s ! 0"
    by (simp add: i0 [symmetric])
  have upd: "(playing s)[Suc 0 := a, 0 := playing s ! 0, Suc 0 := c] = (playing s)[Suc 0 := c]"
    for a c
    using len by (intro nth_equalityI) (auto simp: nth_list_update)
  obtain n' where n': "Play silent_files (rate s)
                 ((playing s ! 1)\<lparr>key := 6000, vel := 100 / 127\<rparr>) = Inr n'"
    using Play_ok [OF silent_files_rates] by blast
  have "onNoteOn silent_files s 0 60 100 =
             Inr (s\<lparr>playing := (playing s)[1 := n'\<lparr>env := ADSR_reset (env n')\<rparr>],
                    newest := 1\<rparr>)"
    using onNoteOn_not_held [OF fr(1) keys, of silent_files 0 100] len i0 n'
    by (simp add: fr(2) MAX_NOTES_def CENTS_SCALE_def RATIO_7BIT_def short_of_int_def
        Let_def and_then_def e0 upd)
  with n' show ?thesis by blast
qed

text \<open>
  C1. The code at a concrete input. A synthesizer is constructed (all ten voices inactive,
  \<open>newest = 0\<close>) and receives \<^verbatim>\<open>onNoteOn(0, 60, 100)\<close>. Slot 0 is the first inactive slot
  in the scan from \<open>newest\<close>, yet the note goes to slot 1, the slot after \<open>newest\<close>, and
  slot 0 stays inactive: the test \<^verbatim>\<open>0 <= index\<close> never holds of \<^verbatim>\<open>index = -1\<close>, so no free
  slot is ever remembered and every note-on of a key that is not held takes the slot after
  \<open>newest\<close>.
\<close>

theorem noteOn_fresh_pool_takes_slot_after_newest:
  "(case WavetableSynth_new silent_files 0 44100 of
      Inl err \<Rightarrow> False
    | Inr s \<Rightarrow>
        newest s = 0 \<and> key (playing s ! 0) = - 1 \<and>
        (case onNoteOn silent_files s 0 60 100 of
           Inl err \<Rightarrow> False
         | Inr s' \<Rightarrow>
             newest s' = 1 \<and> key (playing s' ! 1) = 6000 \<and> key (playing s' ! 0) = - 1))"
proof -
  obtain s where s: "WavetableSynth_new silent_files 0 44100 = Inr s"
    using WavetableSynth_new_ok [OF silent_files_rates, of 44100 0] by auto
  note fr = WavetableSynth_new_fresh [OF s]
  have len: "length (playing s) = 10"
    using fr(1) by (simp add: wf_synth_def MAX_NOTES_def)
  have k0: "key (playing s ! 0) = - 1"
    using fr(7) len by simp
  obtain n' where
    n': "Play silent_files (rate s) ((playing s ! 1)\<lparr>key := 6000, vel := 100 / 127\<rparr>) = Inr n'"
    and on: "onNoteOn silent_files s 0 60 100 =
             Inr (s\<lparr>playing := (playing s)[1 := n'\<lparr>env := ADSR_reset (env n')\<rparr>],
                    newest := 1\<rparr>)"
    using onNoteOn_fresh [OF s] by blast
  have "key n' = 6000"
    using Play_fields [OF n'] by simp
  then show ?thesis
    by (simp add: s on fr(2) k0 len)
qed

text \<open>
  C2. The same call, read at the slot the claim names. With \<open>newest = 0\<close> and every voice
  inactive, the chosen slot of the claim is slot 0. After \<^verbatim>\<open>onNoteOn(0, 60, 100)\<close> slot 0
  holds neither the key 6000 nor the velocity, and \<open>newest\<close> is 1, not 0; the key, the
  velocity \<open>100/127\<close>, the sound of \<^verbatim>\<open>Play\<close> and the reset envelope are in slot 1.
\<close>

theorem noteOn_fresh_pool_leaves_first_free_slot:
  "(case WavetableSynth_new silent_files 0 44100 of
      Inl err \<Rightarrow> False
    | Inr s \<Rightarrow>
        (case onNoteOn silent_files s 0 60 100 of
           Inl err \<Rightarrow> False
         | Inr s' \<Rightarrow>
             playing s' ! 0 = playing s ! 0 \<and> key (playing s' ! 0) \<noteq> 6000 \<and>
             vel (playing s' ! 0) = 0 \<and> newest s' \<noteq> 0 \<and>
             key (playing s' ! 1) = 6000 \<and> vel (playing s' ! 1) = 100 / 127 \<and>
             inst (playing s' ! 1) = patch s \<and>
             envelope (env (playing s' ! 1)) = 0 \<and>
             current_mode (env (playing s' ! 1)) = ATTACK))"
proof -
  obtain s where s: "WavetableSynth_new silent_files 0 44100 = Inr s"
    using WavetableSynth_new_ok [OF silent_files_rates, of 44100 0] by auto
  note fr = WavetableSynth_new_fresh [OF s]
  have len: "length (playing s) = 10"
    using fr(1) by (simp add: wf_synth_def MAX_NOTES_def)
  have "\<exists>n0. Note_new silent_files (- 1) 0 Default 44100 = Inr n0"
    by (rule Note_new_ok [OF silent_files_rates]) simp
  then obtain n0 where n0: "Note_new silent_files (- 1) 0 Default 44100 = Inr n0"
    by blast
  have k0: "key (playing s ! 0) = - 1" and i1: "inst (playing s ! 1) = patch s"
    using fr(7) fr(3) len by simp_all
  have v0: "vel (playing s ! 0) = 0"
    using s n0 Note_new_fields [OF n0]
    by (auto simp: WavetableSynth_new_def and_then_def for_notes_map MAX_NOTES_def
        map_replicate_const split: sum.splits)
  obtain n' where
    n': "Play silent_files (rate s) ((playing s ! 1)\<lparr>key := 6000, vel := 100 / 127\<rparr>) = Inr n'"
    and on: "onNoteOn silent_files s 0 60 100 =
             Inr (s\<lparr>playing := (playing s)[1 := n'\<lparr>env := ADSR_reset (env n')\<rparr>],
                    newest := 1\<rparr>)"
    using onNoteOn_fresh [OF s] by blast
  have "key n' = 6000" "vel n' = 100 / 127" "inst n' = patch s"
    using Play_fields [OF n'] i1 by simp_all
  then show ?thesis
    by (simp add: s on k0 v0 len ADSR_reset_def)
qed

section \<open>Synthesizer: the per-sample tick\<close>

lemma WavetableSynth_next_vibrato:
  assumes "int (length (playing s)) = MAX_NOTES" and "vibrato s \<noteq> 0"
  shows "WavetableSynth_next s =
     (let t = mphase s + dphase s;
          mp = (if t \<le> TWO_PI then t else t - TWO_PI);
          m = vibrato s * sin mp
      in s\<lparr>mphase := mp, mod_w := m,
           playing :=
             map (\<lambda>n. Note_next
                    (n\<lparr>phase := pitchOffset (phase n)
                                   (m + bend s + real_of_int (key n) - A440_CENTS)\<rparr>))
               (playing s)\<rparr>)"
  using assms by (simp add: WavetableSynth_next_def Let_def for_notes_map)

lemma WavetableSynth_next_still:
  assumes "int (length (playing s)) = MAX_NOTES" and "vibrato s = 0"
  shows "WavetableSynth_next s = s\<lparr>playing := map Note_next (playing s)\<rparr>"
  using assms by (simp add: WavetableSynth_next_def Let_def for_notes_map)

text \<open>
  C8, as the code has it. With a vibrato depth other than 0, one \<^verbatim>\<open>next()\<close> advances the
  modulation phase by \<open>dphase\<close>, wrapping at \<open>2\<pi>\<close>, sets \<open>mod = vibrato \<times> sin(phase)\<close>,
  and pushes the offset \<open>mod + bend + key - 6900\<close> to the resampler of every voice of the
  pool, the inactive ones too (their key \<open>-1\<close> enters the offset); then every voice's own
  \<^verbatim>\<open>next()\<close> runs on the result.
\<close>

theorem next_with_vibrato:
  assumes "int (length (playing s)) = MAX_NOTES" and "vibrato s \<noteq> 0"
  shows "let t = mphase s + dphase s;
             mp = (if t \<le> TWO_PI then t else t - TWO_PI);
             m = vibrato s * sin mp
         in mphase (WavetableSynth_next s) = mp \<and>
            mod_w (WavetableSynth_next s) = m \<and>
            length (playing (WavetableSynth_next s)) = length (playing s) \<and>
            (\<forall>i<length (playing s).
               playing (WavetableSynth_next s) ! i =
                 Note_next ((playing s ! i)
                    \<lparr>phase := pitchOffset (phase (playing s ! i))
                         (m + bend s + real_of_int (key (playing s ! i)) - A440_CENTS)\<rparr>) \<and>
               (key (playing s ! i) = - 1 \<longrightarrow>
                  playing (WavetableSynth_next s) ! i =
                    (playing s ! i)
                      \<lparr>phase := pitchOffset (phase (playing s ! i))
                           (m + bend s - 1 - A440_CENTS)\<rparr>))"
  by (simp add: WavetableSynth_next_vibrato [OF assms] Let_def Note_next_def)

lemma silent_voice:
  assumes "Note_new silent_files k v Default 44100 = Inr n" and "k < 1600"
  shows "multiplier (phase n) = 16"
    and "speedup (phase n) = 16 * 2 powr ((real_of_int k - 6900) / 1200)"
    and "key n = k"
  using assms
  by (auto simp: Note_new_def and_then_def Play_def SetSound_def fdiv_def Default_def
      Grand_def grand0_def WaveData_new_def silent_files_def AudioData_new_def
      pitchOffset_def Resample_new_def OCTAVE_CENTILES_def A440_CENTS_def
      split: sum.splits)

lemma fresh_silent_synth:
  assumes "WavetableSynth_new silent_files devno 44100 = Inr s0"
  shows "int (length (playing s0)) = MAX_NOTES" and "mphase s0 = 0"
    and "dphase s0 = pi / 4410" and "bend s0 = 0" and "vibrato s0 = 0"
    and "\<forall>i<10. key (playing s0 ! i) = - 1 \<and> multiplier (phase (playing s0 ! i)) = 16 \<and>
           speedup (phase (playing s0 ! i)) = 16 * 2 powr (- 6901 / 1200)"
proof -
  from WavetableSynth_new_result [OF assms] obtain n where
    n: "Note_new silent_files (- 1) 0 Default 44100 = Inr n" and
    s: "s0 = \<lparr>playing = replicate (nat MAX_NOTES) n,
                bend = 0, rate = real_of_int 44100, vibrato = 0, mod_w = 0, vol = 1 / 2,
                mphase = 0, dphase = REV_TO_HZ / real_of_int 44100, newest = 0,
                patch = Default\<rparr>"
    by auto
  show "int (length (playing s0)) = MAX_NOTES" "mphase s0 = 0" "bend s0 = 0" "vibrato s0 = 0"
    by (simp_all add: s MAX_NOTES_def)
  show "dphase s0 = pi / 4410"
    by (simp add: s REV_TO_HZ_def TWO_PI_def)
  show "\<forall>i<10. key (playing s0 ! i) = - 1 \<and> multiplier (phase (playing s0 ! i)) = 16 \<and>
           speedup (phase (playing s0 ! i)) = 16 * 2 powr (- 6901 / 1200)"
    using silent_voice [OF n] by (simp add: s MAX_NOTES_def)
qed

theorem next_with_vibrato_witness:
  "(case WavetableSynth_new silent_files 0 44100 of
      Inl err \<Rightarrow> False
    | Inr s0 \<Rightarrow>
        int (length (playing (onModulationWheelChange s0 0 127))) = MAX_NOTES \<and>
        vibrato (onModulationWheelChange s0 0 127) = 200 \<and>
        mphase (WavetableSynth_next (onModulationWheelChange s0 0 127)) = pi / 4410 \<and>
        mod_w (WavetableSynth_next (onModulationWheelChange s0 0 127)) = 200 * sin (pi / 4410) \<and>
        key (playing (onModulationWheelChange s0 0 127) ! 0) = - 1 \<and>
        speedup (phase (playing (WavetableSynth_next (onModulationWheelChange s0 0 127)) ! 0))
          = 16 * 2 powr ((200 * sin (pi / 4410) - 6901) / 1200))"
proof -
  obtain s0 where s0: "WavetableSynth_new silent_files 0 44100 = Inr s0"
    using WavetableSynth_new_ok [OF silent_files_rates, of 44100 0] by auto
  note fr = fresh_silent_synth [OF s0]
  let ?s = "onModulationWheelChange s0 0 127"
  have len: "int (length (playing ?s)) = MAX_NOTES"
    using fr(1) by (simp add: onModulationWheelChange_def)
  have vib: "vibrato ?s = 200"
    by (simp add: onModulationWheelChange_def CENTS_RANGE_def CENTS_SCALE_def RATIO_7BIT_def)
  then have nz: "vibrato ?s \<noteq> 0" by simp
  have st: "mphase ?s = 0" "dphase ?s = pi / 4410" "bend ?s = 0" "playing ?s = playing s0"
    using fr by (simp_all add: onModulationWheelChange_def)
  have v0: "key (playing s0 ! 0) = - 1" "multiplier (phase (playing s0 ! 0)) = 16"
    using fr(6) by simp_all
  have l10: "0 < length (playing s0)"
    using fr(1) by (simp add: MAX_NOTES_def)
  have wrap: "pi / 4410 \<le> TWO_PI"
    using pi_gt_zero by (simp add: TWO_PI_def)
  show ?thesis
    using next_with_vibrato [OF len nz] len vib v0 l10 wrap
    by (simp add: s0 st Let_def pitchOffset_def OCTAVE_CENTILES_def A440_CENTS_def
        Note_next_def)
qed

text \<open>
  C8, the claim as stated fails. A synthesizer as constructed has only inactive voices
  (key \<open>-1\<close>); the modulation wheel at 127 makes the vibrato depth 200. One \<^verbatim>\<open>next()\<close> then
  changes the resampler speed of the inactive voice in slot 0.
\<close>

theorem next_with_vibrato_counterexample:
  "(case WavetableSynth_new silent_files 0 44100 of
      Inl err \<Rightarrow> False
    | Inr s0 \<Rightarrow>
        vibrato (onModulationWheelChange s0 0 127) \<noteq> 0 \<and>
        key (playing (onModulationWheelChange s0 0 127) ! 0) = - 1 \<and>
        speedup (phase (playing (WavetableSynth_next (onModulationWheelChange s0 0 127)) ! 0))
          \<noteq> speedup (phase (playing (onModulationWheelChange s0 0 127) ! 0)))"
proof -
  obtain s0 where s0: "WavetableSynth_new silent_files 0 44100 = Inr s0"
    using WavetableSynth_new_ok [OF silent_files_rates, of 44100 0] by auto
  note fr = fresh_silent_synth [OF s0]
  let ?s = "onModulationWheelChange s0 0 127"
  have len: "int (length (playing ?s)) = MAX_NOTES"
    using fr(1) by (simp add: onModulationWheelChange_def)
  have vib: "vibrato ?s = 200"
    by (simp add: onModulationWheelChange_def CENTS_RANGE_def CENTS_SCALE_def RATIO_7BIT_def)
  have st: "mphase ?s = 0" "dphase ?s = pi / 4410" "bend ?s = 0" "playing ?s = playing s0"
    using fr by (simp_all add: onModulationWheelChange_def)
  have v0: "key (playing s0 ! 0) = - 1" "multiplier (phase (playing s0 ! 0)) = 16"
    "speedup (phase (playing s0 ! 0)) = 16 * 2 powr (- 6901 / 1200)"
    using fr(6) by simp_all
  have l10: "0 < length (playing s0)"
    using fr(1) by (simp add: MAX_NOTES_def)
  have wrap: "pi / 4410 \<le> TWO_PI"
    using pi_gt_zero by (simp add: TWO_PI_def)
  have after: "speedup (phase (playing (WavetableSynth_next ?s) ! 0))
                 = 16 * 2 powr ((200 * sin (pi / 4410) - 6901) / 1200)"
    using len vib v0 l10 wrap
    by (simp add: WavetableSynth_next_vibrato st Let_def Note_next_def pitchOffset_def
        OCTAVE_CENTILES_def A440_CENTS_def)
  have "0 < sin (pi / 4410)"
    by (intro sin_gt_zero) (simp_all add: pi_gt_zero)
  then have "speedup (phase (playing (WavetableSynth_next ?s) ! 0))
               \<noteq> speedup (phase (playing ?s ! 0))"
    by (simp add: after st v0 powr_inj)
  then show ?thesis
    using vib v0 by (simp add: s0 st)
qed

lemma Note_next_speed:
  "multiplier (phase (Note_next n)) = multiplier (phase n) \<and>
   speedup (phase (Note_next n)) =
     (if key n \<noteq> - 1 \<and> current_mode (env n) = RELEASE \<and> envelope (env n) < EPSILON
      then multiplier (phase n) * 2 powr (- 25600 * OCTAVE_CENTILES)
      else speedup (phase n))"
  by (simp add: Note_next_def ADSR_mode_def ADSR_output_def pitchOffset_def Resample_next_def)

lemma ADSR_next_not_release:
  "current_mode e \<noteq> RELEASE \<Longrightarrow> current_mode (ADSR_next e) \<noteq> RELEASE"
  by (cases "current_mode e") (simp_all add: ADSR_next_def Let_def)

lemma Note_next_held:
  assumes "key n = - 1 \<or> current_mode (env n) \<noteq> RELEASE"
  shows "(key (Note_next n) = - 1 \<or> current_mode (env (Note_next n)) \<noteq> RELEASE) \<and>
         speedup (phase (Note_next n)) = speedup (phase n)"
  using assms
  by (auto simp: Note_next_def ADSR_mode_def Resample_next_def ADSR_next_not_release)

lemma Note_next_iter_held:
  assumes "key n = - 1 \<or> current_mode (env n) \<noteq> RELEASE"
  shows "(key ((Note_next ^^ k) n) = - 1 \<or> current_mode (env ((Note_next ^^ k) n)) \<noteq> RELEASE) \<and>
         speedup (phase ((Note_next ^^ k) n)) = speedup (phase n)"
proof (induction k)
  case 0
  show ?case using assms by simp
next
  case (Suc k)
  then show ?case
    using Note_next_held [of "(Note_next ^^ k) n"] by simp
qed

lemma Note_next_iter_speed:
  "multiplier (phase ((Note_next ^^ k) n)) = multiplier (phase n) \<and>
   (speedup (phase ((Note_next ^^ k) n)) = speedup (phase n) \<or>
    key ((Note_next ^^ k) n) = - 1 \<and>
    speedup (phase ((Note_next ^^ k) n)) = multiplier (phase n) * 2 powr (- 25600 * OCTAVE_CENTILES))"
proof (induction k)
  case 0
  show ?case by simp
next
  case (Suc k)
  let ?m = "(Note_next ^^ k) n"
  have step: "multiplier (phase (Note_next ?m)) = multiplier (phase ?m) \<and>
        (speedup (phase (Note_next ?m)) = speedup (phase ?m) \<and> (key ?m = - 1 \<longrightarrow> key (Note_next ?m) = - 1) \<or>
         key (Note_next ?m) = - 1 \<and>
         speedup (phase (Note_next ?m)) = multiplier (phase ?m) * 2 powr (- 25600 * OCTAVE_CENTILES))"
    by (simp add: Note_next_def pitchOffset_def Resample_next_def)
  with Suc show ?case
    by auto
qed

lemma WavetableSynth_ticks_still:
  assumes "int (length (playing s)) = MAX_NOTES" and "vibrato s = 0"
  shows "(WavetableSynth_next ^^ k) s = s\<lparr>playing := map (Note_next ^^ k) (playing s)\<rparr>"
proof (induction k)
  case 0
  show ?case by simp
next
  case (Suc k)
  have "WavetableSynth_next (s\<lparr>playing := map (Note_next ^^ k) (playing s)\<rparr>) =
          s\<lparr>playing := map (Note_next ^^ Suc k) (playing s)\<rparr>"
    using assms by (subst WavetableSynth_next_still) simp_all
  then show ?case
    using Suc by simp
qed

section \<open>Synthesizer: what writes a voice's resampler speed\<close>

lemma scan_NotHeld_keys:
  "scan ps k hi index i = Inr (NotHeld index' i') \<Longrightarrow>
     \<forall>j. i \<le> j \<and> j < hi \<longrightarrow> key (ps ! nat j) \<noteq> k"
proof (induction ps k hi index i rule: scan.induct)
  case (1 ps k hi index i)
  show ?case
  proof (cases "i < hi")
    case True
    with "1.prems" have ok: "\<not> (i < 0 \<or> int (length ps) \<le> i)" and nk: "key (ps ! nat i) \<noteq> k"
      by (subst (asm) scan.simps, simp split: if_splits)+
    have "scan ps k hi index i =
            scan ps k hi (if 0 \<le> index \<and> key (ps ! nat i) < 0 then i else index) (i + 1)"
      using True ok nk by (subst scan.simps) simp
    then have rest: "\<forall>j. i + 1 \<le> j \<and> j < hi \<longrightarrow> key (ps ! nat j) \<noteq> k"
      using "1.IH" [OF True ok nk] "1.prems" by simp
    show ?thesis
    proof (intro allI impI)
      fix j assume j: "i \<le> j \<and> j < hi"
      show "key (ps ! nat j) \<noteq> k"
      proof (cases "j = i")
        case True
        then show ?thesis using nk by simp
      next
        case False
        with j have "i + 1 \<le> j \<and> j < hi" by simp
        then show ?thesis using rest by blast
      qed
    qed
  next
    case False
    then show ?thesis by simp
  qed
qed

lemma set_slot_retrigger_speed:
  assumes "set_slot ps i (retrigger v) = Inr ps'"
  shows "speedup (phase (ps' ! j)) = speedup (phase (ps ! j))"
proof -
  from assms have r: "0 \<le> i" "i < int (length ps)"
    and ps': "ps' = ps[nat i := retrigger v (ps ! nat i)]"
    by (auto simp: set_slot_def slot_def and_then_def split: if_splits)
  have lt: "nat i < length ps" using r by linarith
  show ?thesis
    using lt by (cases "j = nat i") (simp_all add: ps' retrigger_def Resample_reset_def)
qed

lemma onNoteOn_other_slots:
  assumes wf: "wf_synth s"
    and nh: "\<forall>n\<in>set (playing s). key n \<noteq> note0 * CENTS_SCALE"
    and res: "onNoteOn X s chan note0 velocity = Inr s'"
    and other: "int j \<noteq> (if newest s + 1 = MAX_NOTES then 0 else newest s + 1)"
  shows "phase (playing s' ! j) = phase (playing s ! j)"
proof -
  define index where "index = (if newest s + 1 = MAX_NOTES then 0 else newest s + 1)"
  have len: "int (length (playing s)) = MAX_NOTES"
    and n0: "0 \<le> newest s" and n1: "newest s < MAX_NOTES"
    using wf by (simp_all add: wf_synth_def)
  have i0: "0 \<le> index"
    using n0 by (simp add: index_def)
  have ne: "j \<noteq> nat index"
    using other i0 by (auto simp: index_def)
  have nl: "nat (newest s) < length (playing s)"
    using len n0 n1 by linarith
  define ps1 where "ps1 = (playing s)[nat index :=
                  (playing s ! nat index)\<lparr>key := short_of_int (note0 * CENTS_SCALE),
                                           vel := real_of_int velocity * RATIO_7BIT\<rparr>]"
  define ps2 where "ps2 = ps1[nat (newest s) := (ps1 ! nat (newest s))\<lparr>inst := patch s\<rparr>]"
  have "onNoteOn X s chan note0 velocity =
          and_then (Play X (rate s) (ps2 ! nat index))
            (\<lambda>n'. Inr (s\<lparr>playing := ps2[nat index := n'\<lparr>env := ADSR_reset (env n')\<rparr>],
                          newest := index\<rparr>))"
    using onNoteOn_not_held [OF wf nh, of X chan velocity]
    by (simp add: Let_def index_def ps1_def ps2_def)
  with res obtain n' where
    s': "s' = s\<lparr>playing := ps2[nat index := n'\<lparr>env := ADSR_reset (env n')\<rparr>],
                     newest := index\<rparr>"
    by (auto simp: and_then_def split: sum.splits)
  have "playing s' ! j = ps2 ! j"
    using ne by (simp add: s')
  also have "phase (ps2 ! j) = phase (ps1 ! j)"
    using nl by (cases "j = nat (newest s)") (simp_all add: ps2_def ps1_def)
  also have "ps1 ! j = playing s ! j"
    using ne by (simp add: ps1_def)
  finally show ?thesis .
qed

lemma onNoteOn_speed:
  assumes wf: "wf_synth s" and res: "onNoteOn X s chan note0 velocity = Inr s'"
    and i: "i < length (playing s)"
    and quiet: "\<not> overwrites s (NoteOn chan note0 velocity) i"
  shows "speedup (phase (playing s' ! i)) = speedup (phase (playing s ! i))"
proof -
  have len: "int (length (playing s)) = MAX_NOTES"
    and n0: "0 \<le> newest s" and n1: "newest s < MAX_NOTES"
    using wf by (simp_all add: wf_synth_def)
  let ?k = "note0 * CENTS_SCALE"
  from res obtain r1 where r1: "scan (playing s) ?k MAX_NOTES (- 1) (newest s) = Inr r1"
    by (auto simp: onNoteOn_def Let_def and_then_def split: sum.splits)
  show ?thesis
  proof (cases r1)
    case (Retrigger j)
    with res r1 obtain ps where "set_slot (playing s) j (retrigger velocity) = Inr ps"
      and "s' = s\<lparr>playing := ps\<rparr>"
      by (auto simp: onNoteOn_def Let_def and_then_def split: sum.splits)
    then show ?thesis
      using set_slot_retrigger_speed by simp
  next
    case (NotHeld index1 i1)
    then have i1: "index1 = - 1"
      using scan_index_stuck [of "- 1" "playing s" ?k MAX_NOTES "newest s"] r1 by simp
    have hi: "\<forall>j. newest s \<le> j \<and> j < MAX_NOTES \<longrightarrow> key (playing s ! nat j) \<noteq> ?k"
      using scan_NotHeld_keys r1 NotHeld by blast
    from res r1 NotHeld obtain r2 where r2: "scan (playing s) ?k (newest s) (- 1) 0 = Inr r2"
      by (auto simp: onNoteOn_def Let_def and_then_def i1 split: sum.splits)
    show ?thesis
    proof (cases r2)
      case (Retrigger j)
      with res r1 r2 NotHeld i1 obtain ps where "set_slot (playing s) j (retrigger velocity) = Inr ps"
        and "s' = s\<lparr>playing := ps\<rparr>"
        by (auto simp: onNoteOn_def Let_def and_then_def split: sum.splits)
      then show ?thesis
        using set_slot_retrigger_speed by simp
    next
      case (NotHeld index2 i2)
      have lo: "\<forall>j. 0 \<le> j \<and> j < newest s \<longrightarrow> key (playing s ! nat j) \<noteq> ?k"
        using scan_NotHeld_keys r2 NotHeld by blast
      have nh: "\<forall>n\<in>set (playing s). key n \<noteq> ?k"
      proof
        fix n assume "n \<in> set (playing s)"
        then obtain j where j: "j < length (playing s)" and n: "n = playing s ! j"
          by (auto simp: in_set_conv_nth)
        have "0 \<le> int j \<and> int j < MAX_NOTES" using j len by linarith
        then have "key (playing s ! nat (int j)) \<noteq> ?k"
          using hi [rule_format, of "int j"] lo [rule_format, of "int j"]
          by (cases "newest s \<le> int j") simp_all
        then show "key n \<noteq> ?k" by (simp add: n)
      qed
      then have "\<not> list_ex (\<lambda>n. key n = ?k) (playing s)"
        by (simp add: list_ex_iff)
      with quiet have "int i \<noteq> (if newest s + 1 = MAX_NOTES then 0 else newest s + 1)"
        by simp
      then show ?thesis
        using onNoteOn_other_slots [OF wf nh res] by simp
    qed
  qed
qed

lemma apply_event_wf:
  assumes wf: "wf_synth s" and res: "apply_event X ev s = Inr s'"
  shows "wf_synth s'"
proof (cases ev)
  case Tick
  then show ?thesis using res callbacks_wf(1) [OF wf] by simp
next
  case (NoteOn chan note0 velocity)
  then show ?thesis using res onNoteOn_wf [OF wf] by simp
next
  case (NoteOff chan note0)
  then show ?thesis using res callbacks_wf(2) [OF wf] by auto
next
  case (PatchChange chan v)
  then show ?thesis using res onPatchChange_wf [OF wf] by simp
next
  case (PitchWheelChange chan v)
  then show ?thesis using res callbacks_wf(3) [OF wf] by auto
next
  case (ModulationWheelChange chan v)
  then show ?thesis using res callbacks_wf(4) [OF wf] by auto
next
  case (VolumeChange chan v)
  then show ?thesis using res callbacks_wf(5) [OF wf] by auto
qed

lemma apply_event_speed:
  assumes wf: "wf_synth s" and res: "apply_event X ev s = Inr s'"
    and i: "i < length (playing s)" and quiet: "\<not> overwrites s ev i"
  shows "speedup (phase (playing s' ! i)) = speedup (phase (playing s ! i))"
proof -
  have len: "int (length (playing s)) = MAX_NOTES"
    using wf by (simp add: wf_synth_def)
  show ?thesis
  proof (cases ev)
    case Tick
    with quiet have vib: "vibrato s = 0"
      and live: "\<not> (key (playing s ! i) \<noteq> - 1 \<and> current_mode (env (playing s ! i)) = RELEASE \<and>
                   envelope (env (playing s ! i)) < EPSILON)"
      by auto
    have "s' = s\<lparr>playing := map Note_next (playing s)\<rparr>"
      using res Tick WavetableSynth_next_still [OF len vib] by simp
    then have "playing s' ! i = Note_next (playing s ! i)"
      using i by simp
    then show ?thesis
      by (simp only: conjunct2 [OF Note_next_speed] if_not_P [OF live])
  next
    case (NoteOn chan note0 velocity)
    then show ?thesis
      using onNoteOn_speed [OF wf _ i] res quiet by simp
  next
    case (NoteOff chan note0)
    then show ?thesis
      using res i len by (auto simp: onNoteOff_def Let_def for_notes_map)
  next
    case (PatchChange chan v)
    then show ?thesis using quiet by simp
  next
    case (PitchWheelChange chan v)
    then show ?thesis using quiet by simp
  next
    case (ModulationWheelChange chan v)
    then show ?thesis
      using res by (auto simp: onModulationWheelChange_def)
  next
    case (VolumeChange chan v)
    then show ?thesis
      using res by (auto simp: onVolumeChange_def)
  qed
qed

lemma apply_event_length:
  "wf_synth s \<Longrightarrow> apply_event X ev s = Inr s' \<Longrightarrow> length (playing s') = length (playing s)"
  using apply_event_wf [of s X ev s'] by (simp add: wf_synth_def)

lemma run_events_undisturbed:
  "wf_synth s \<Longrightarrow> i < length (playing s) \<Longrightarrow> undisturbed X evs s i \<Longrightarrow>
     \<exists>s'. run_events X evs s = Inr s' \<and> wf_synth s' \<and>
          speedup (phase (playing s' ! i)) = speedup (phase (playing s ! i))"
proof (induction evs arbitrary: s)
  case Nil
  then show ?case by simp
next
  case (Cons ev evs)
  from Cons.prems(3) obtain s1 where s1: "apply_event X ev s = Inr s1"
    and quiet: "\<not> overwrites s ev i" and rest: "undisturbed X evs s1 i"
    by (auto split: sum.splits)
  have wf1: "wf_synth s1"
    using apply_event_wf [OF Cons.prems(1) s1] .
  have i1: "i < length (playing s1)"
    using apply_event_length [OF Cons.prems(1) s1] Cons.prems(2) by simp
  from Cons.IH [OF wf1 i1 rest] obtain s' where
    "run_events X evs s1 = Inr s'" "wf_synth s'"
    "speedup (phase (playing s' ! i)) = speedup (phase (playing s1 ! i))"
    by blast
  then show ?case
    using apply_event_speed [OF Cons.prems(1) s1 Cons.prems(2) quiet]
    by (simp add: s1 and_then_def)
qed

lemma scan_in_range:
  "0 \<le> i \<Longrightarrow> hi \<le> int (length ps) \<Longrightarrow>
     (\<exists>j. scan ps k hi index i = Inr (Retrigger j) \<and> 0 \<le> j \<and> j < int (length ps)) \<or>
     (\<exists>index' i'. scan ps k hi index i = Inr (NotHeld index' i'))"
proof (induction ps k hi index i rule: scan.induct)
  case (1 ps k hi index i)
  show ?case
  proof (cases "i < hi")
    case True
    with "1.prems" have ok: "\<not> (i < 0 \<or> int (length ps) \<le> i)" by linarith
    show ?thesis
    proof (cases "key (ps ! nat i) = k")
      case hit: True
      have "scan ps k hi index i = Inr (Retrigger i)"
        using True ok hit by (subst scan.simps) simp
      then show ?thesis using ok by simp
    next
      case miss: False
      have "scan ps k hi index i =
              scan ps k hi (if 0 \<le> index \<and> key (ps ! nat i) < 0 then i else index) (i + 1)"
        using True ok miss by (subst scan.simps) simp
      then show ?thesis
        using "1.IH" [OF True ok miss] "1.prems" by simp
    qed
  next
    case False
    then have "scan ps k hi index i = Inr (NotHeld index i)"
      by (subst scan.simps) simp
    then show ?thesis by simp
  qed
qed

lemma set_slot_retrigger:
  assumes "0 \<le> j" and "j < int (length ps)"
  shows "\<exists>ps'. set_slot ps j (retrigger v) = Inr ps' \<and> length ps' = length ps \<and>
           (\<forall>i<length ps. key (ps' ! i) = key (ps ! i) \<and>
              (current_mode (env (ps' ! i)) = current_mode (env (ps ! i)) \<or>
               current_mode (env (ps' ! i)) = ATTACK))"
proof -
  have lt: "nat j < length ps" using assms by linarith
  have "set_slot ps j (retrigger v) = Inr (ps[nat j := retrigger v (ps ! nat j)])"
    using assms by (simp add: set_slot_def slot_def and_then_def)
  moreover have "key (ps[nat j := retrigger v (ps ! nat j)] ! i) = key (ps ! i) \<and>
      (current_mode (env (ps[nat j := retrigger v (ps ! nat j)] ! i)) = current_mode (env (ps ! i)) \<or>
       current_mode (env (ps[nat j := retrigger v (ps ! nat j)] ! i)) = ATTACK)"
    if "i < length ps" for i
    using lt by (cases "i = nat j") (simp_all add: retrigger_def ADSR_reset_def)
  ultimately show ?thesis by simp
qed

lemma onNoteOn_held:
  assumes wf: "wf_synth s"
    and held: "\<exists>n\<in>set (playing s). key n = note0 * CENTS_SCALE"
  shows "\<exists>s'. onNoteOn X s chan note0 velocity = Inr s' \<and> vibrato s' = vibrato s \<and>
           (\<forall>i<length (playing s). key (playing s' ! i) = key (playing s ! i) \<and>
              (current_mode (env (playing s' ! i)) = current_mode (env (playing s ! i)) \<or>
               current_mode (env (playing s' ! i)) = ATTACK))"
proof -
  have len: "int (length (playing s)) = MAX_NOTES"
    and n0: "0 \<le> newest s" and n1: "newest s < MAX_NOTES"
    using wf by (simp_all add: wf_synth_def)
  let ?k = "note0 * CENTS_SCALE"
  have retriggered: ?thesis
    if hit: "onNoteOn X s chan note0 velocity =
               and_then (set_slot (playing s) j (retrigger velocity))
                 (\<lambda>ps. Inr (s\<lparr>playing := ps\<rparr>))"
      and j: "0 \<le> j" "j < int (length (playing s))" for j
  proof -
    from set_slot_retrigger [OF j, of velocity] obtain ps' where
      "set_slot (playing s) j (retrigger velocity) = Inr ps'"
      "\<forall>i<length (playing s). key (ps' ! i) = key (playing s ! i) \<and>
              (current_mode (env (ps' ! i)) = current_mode (env (playing s ! i)) \<or>
               current_mode (env (ps' ! i)) = ATTACK)"
      by blast
    then show ?thesis
      by (simp add: hit and_then_def)
  qed
  from scan_in_range [of "newest s" MAX_NOTES "playing s" ?k "- 1"] n0 len
  consider (hit1) j where "scan (playing s) ?k MAX_NOTES (- 1) (newest s) = Inr (Retrigger j)"
      "0 \<le> j" "j < int (length (playing s))"
    | (miss1) index1 i1 where
      "scan (playing s) ?k MAX_NOTES (- 1) (newest s) = Inr (NotHeld index1 i1)"
    by auto
  then show ?thesis
  proof cases
    case hit1
    show ?thesis
      by (rule retriggered [OF _ hit1(2,3)]) (simp add: onNoteOn_def Let_def hit1(1) and_then_def)
  next
    case miss1
    have i1: "index1 = - 1"
      using scan_index_stuck [of "- 1" "playing s" ?k MAX_NOTES "newest s"] miss1 by simp
    have hi: "\<forall>j. newest s \<le> j \<and> j < MAX_NOTES \<longrightarrow> key (playing s ! nat j) \<noteq> ?k"
      using scan_NotHeld_keys miss1 by blast
    from scan_in_range [of 0 "newest s" "playing s" ?k "- 1"] n1 len
    consider (hit2) j where "scan (playing s) ?k (newest s) (- 1) 0 = Inr (Retrigger j)"
        "0 \<le> j" "j < int (length (playing s))"
      | (miss2) index2 i2 where
        "scan (playing s) ?k (newest s) (- 1) 0 = Inr (NotHeld index2 i2)"
      by auto
    then show ?thesis
    proof cases
      case hit2
      show ?thesis
        by (rule retriggered [OF _ hit2(2,3)])
          (simp add: onNoteOn_def Let_def miss1 i1 hit2(1) and_then_def)
    next
      case miss2
      have lo: "\<forall>j. 0 \<le> j \<and> j < newest s \<longrightarrow> key (playing s ! nat j) \<noteq> ?k"
        using scan_NotHeld_keys miss2 by blast
      from held obtain j where j: "j < length (playing s)" and kj: "key (playing s ! j) = ?k"
        by (auto simp: in_set_conv_nth)
      have "0 \<le> int j \<and> int j < MAX_NOTES" using j len by linarith
      then have "key (playing s ! nat (int j)) \<noteq> ?k"
        using hi [rule_format, of "int j"] lo [rule_format, of "int j"]
        by (cases "newest s \<le> int j") simp_all
      with kj show ?thesis by simp
    qed
  qed
qed

lemma Note_next_sounding:
  assumes "current_mode (env n) \<noteq> RELEASE"
  shows "key (Note_next n) = key n" and "current_mode (env (Note_next n)) \<noteq> RELEASE"
  using assms by (simp_all add: Note_next_def ADSR_mode_def ADSR_next_not_release)

lemma silent_synth_vibrato_tick:
  assumes s0: "WavetableSynth_new silent_files devno 44100 = Inr s0"
  shows "speedup (phase (playing (WavetableSynth_next (onModulationWheelChange s0 0 127)) ! 0))
           = 16 * 2 powr ((200 * sin (pi / 4410) - 6901) / 1200)"
    and "wf_synth (WavetableSynth_next (onModulationWheelChange s0 0 127))"
    and "rate (WavetableSynth_next (onModulationWheelChange s0 0 127)) = 44100"
proof -
  note fr = fresh_silent_synth [OF s0]
  note fw = WavetableSynth_new_fresh [OF s0]
  let ?s = "onModulationWheelChange s0 0 127"
  have len: "int (length (playing ?s)) = MAX_NOTES"
    using fr(1) by (simp add: onModulationWheelChange_def)
  have vib: "vibrato ?s = 200"
    by (simp add: onModulationWheelChange_def CENTS_RANGE_def CENTS_SCALE_def RATIO_7BIT_def)
  have st: "mphase ?s = 0" "dphase ?s = pi / 4410" "bend ?s = 0" "playing ?s = playing s0"
    using fr by (simp_all add: onModulationWheelChange_def)
  have v0: "key (playing s0 ! 0) = - 1" "multiplier (phase (playing s0 ! 0)) = 16"
    using fr(6) by simp_all
  have l10: "0 < length (playing s0)"
    using fr(1) by (simp add: MAX_NOTES_def)
  have wrap: "pi / 4410 \<le> TWO_PI"
    using pi_gt_zero by (simp add: TWO_PI_def)
  show "speedup (phase (playing (WavetableSynth_next ?s) ! 0))
                 = 16 * 2 powr ((200 * sin (pi / 4410) - 6901) / 1200)"
    using len vib v0 l10 wrap
    by (simp add: WavetableSynth_next_vibrato st Let_def Note_next_def pitchOffset_def
        OCTAVE_CENTILES_def A440_CENTS_def)
  show "wf_synth (WavetableSynth_next ?s)"
    using callbacks_wf(1) [OF callbacks_wf(4) [OF fw(1)]] .
  show "rate (WavetableSynth_next ?s) = 44100"
    using fw(6) by (simp add: WavetableSynth_next_def Let_def onModulationWheelChange_def)
qed

text \<open>
  C10, as the code has it. With vibrato depth 0, \<^verbatim>\<open>next()\<close> leaves the modulation phase and
  \<open>mod\<close> as they are, and leaves the resampler speed of every voice as it is, except of a
  voice that this tick reclaims (key not \<open>-1\<close>, envelope in Release under the epsilon
  0.01): \<^verbatim>\<open>Note::next\<close> detunes that one by \<open>-25600\<close> cents. So through any number \<open>k\<close> of
  such ticks the speed of a voice that is inactive or not in Release, an earlier vibrato
  contribution included, stays what it was; and the speed of any voice either stays what it
  was or, once the voice has been reclaimed, is the detuned one. And through any sequence of
  ticks and MIDI callbacks that all return, the speed of a voice stays what it was as long as
  none of them is a pitch-wheel change, a patch change, a note-on that takes the voice's slot
  for a key no slot holds, a tick with a vibrato depth other than 0, or the tick that
  reclaims the voice.
\<close>

theorem next_without_vibrato:
  assumes "int (length (playing s)) = MAX_NOTES" and "vibrato s = 0"
  shows "mphase (WavetableSynth_next s) = mphase s \<and>
         mod_w (WavetableSynth_next s) = mod_w s \<and>
         length (playing (WavetableSynth_next s)) = length (playing s) \<and>
         (\<forall>i<length (playing s).
            multiplier (phase (playing (WavetableSynth_next s) ! i))
              = multiplier (phase (playing s ! i)) \<and>
            speedup (phase (playing (WavetableSynth_next s) ! i)) =
              (if key (playing s ! i) \<noteq> - 1 \<and> current_mode (env (playing s ! i)) = RELEASE \<and>
                  envelope (env (playing s ! i)) < EPSILON
               then multiplier (phase (playing s ! i)) * 2 powr (- 25600 * OCTAVE_CENTILES)
               else speedup (phase (playing s ! i)))) \<and>
         (\<forall>k. \<forall>i<length (playing s).
            (key (playing s ! i) = - 1 \<or> current_mode (env (playing s ! i)) \<noteq> RELEASE \<longrightarrow>
               speedup (phase (playing ((WavetableSynth_next ^^ k) s) ! i))
                 = speedup (phase (playing s ! i))) \<and>
            (speedup (phase (playing ((WavetableSynth_next ^^ k) s) ! i))
               = speedup (phase (playing s ! i)) \<or>
             key (playing ((WavetableSynth_next ^^ k) s) ! i) = - 1 \<and>
             speedup (phase (playing ((WavetableSynth_next ^^ k) s) ! i))
               = multiplier (phase (playing s ! i)) * 2 powr (- 25600 * OCTAVE_CENTILES))) \<and>
         (\<forall>i<length (playing s).
            wf_synth s \<and> undisturbed X evs s i \<longrightarrow>
              (\<exists>s'. run_events X evs s = Inr s' \<and>
                 speedup (phase (playing s' ! i)) = speedup (phase (playing s ! i))))"
proof -
  have one: "WavetableSynth_next s = s\<lparr>playing := map Note_next (playing s)\<rparr>"
    using WavetableSynth_next_still [OF assms] .
  have many: "(WavetableSynth_next ^^ k) s = s\<lparr>playing := map (Note_next ^^ k) (playing s)\<rparr>"
    for k
    using WavetableSynth_ticks_still [OF assms] .
  have tick: "mphase (WavetableSynth_next s) = mphase s \<and>
         mod_w (WavetableSynth_next s) = mod_w s \<and>
         length (playing (WavetableSynth_next s)) = length (playing s) \<and>
         (\<forall>i<length (playing s).
            multiplier (phase (playing (WavetableSynth_next s) ! i))
              = multiplier (phase (playing s ! i)) \<and>
            speedup (phase (playing (WavetableSynth_next s) ! i)) =
              (if key (playing s ! i) \<noteq> - 1 \<and> current_mode (env (playing s ! i)) = RELEASE \<and>
                  envelope (env (playing s ! i)) < EPSILON
               then multiplier (phase (playing s ! i)) * 2 powr (- 25600 * OCTAVE_CENTILES)
               else speedup (phase (playing s ! i))))"
    by (simp add: one Note_next_speed)
  have ticks: "(key (playing s ! i) = - 1 \<or> current_mode (env (playing s ! i)) \<noteq> RELEASE \<longrightarrow>
               speedup (phase (playing ((WavetableSynth_next ^^ k) s) ! i))
                 = speedup (phase (playing s ! i))) \<and>
            (speedup (phase (playing ((WavetableSynth_next ^^ k) s) ! i))
               = speedup (phase (playing s ! i)) \<or>
             key (playing ((WavetableSynth_next ^^ k) s) ! i) = - 1 \<and>
             speedup (phase (playing ((WavetableSynth_next ^^ k) s) ! i))
               = multiplier (phase (playing s ! i)) * 2 powr (- 25600 * OCTAVE_CENTILES))"
    if "i < length (playing s)" for k i
  proof -
    have at: "playing ((WavetableSynth_next ^^ k) s) ! i = (Note_next ^^ k) (playing s ! i)"
      using that by (simp add: many)
    show ?thesis
      unfolding at
      using Note_next_iter_held [of "playing s ! i" k] Note_next_iter_speed [of k "playing s ! i"]
      by blast
  qed
  have run: "\<exists>s'. run_events X evs s = Inr s' \<and>
                 speedup (phase (playing s' ! i)) = speedup (phase (playing s ! i))"
    if "i < length (playing s)" and "wf_synth s" and "undisturbed X evs s i" for i
    using run_events_undisturbed [OF that(2) that(1) that(3)] by blast
  show ?thesis
    using tick ticks run by blast
qed

lemma silent_Play_6000:
  assumes "Play silent_files 44100 n = Inr n'" and "key n = 6000" and "inst n = Default"
  shows "multiplier (phase n') = 2" and "speedup (phase n') = 2 * 2 powr (- 900 / 1200)"
    and "key n' = 6000" and "env n' = env n"
  using assms
  by (auto simp: Play_def SetSound_def and_then_def fdiv_def Default_def
      Grand_def grand3_def WaveData_new_def silent_files_def AudioData_new_def
      pitchOffset_def Resample_new_def OCTAVE_CENTILES_def A440_CENTS_def
      split: sum.splits)

lemma silent_synth_note_60:
  assumes s0: "WavetableSynth_new silent_files devno 44100 = Inr s0"
  shows "\<exists>s1 v. onNoteOn silent_files s0 0 60 100 = Inr s1 \<and>
           int (length (playing s1)) = MAX_NOTES \<and> vibrato s1 = 0 \<and>
           playing s1 ! 1 = v \<and> key v = 6000 \<and> multiplier (phase v) = 2 \<and>
           speedup (phase v) = 2 * 2 powr (- 900 / 1200) \<and>
           current_mode (env v) = ATTACK \<and> envelope (env v) = 0"
proof -
  note fr = WavetableSynth_new_fresh [OF s0]
  have len: "length (playing s0) = 10"
    using fr(1) by (simp add: wf_synth_def MAX_NOTES_def)
  obtain n' where
    n': "Play silent_files (rate s0) ((playing s0 ! 1)\<lparr>key := 6000, vel := 100 / 127\<rparr>) = Inr n'"
    and on: "onNoteOn silent_files s0 0 60 100 =
             Inr (s0\<lparr>playing := (playing s0)[1 := n'\<lparr>env := ADSR_reset (env n')\<rparr>],
                    newest := 1\<rparr>)"
    using onNoteOn_fresh [OF s0] by blast
  have i1: "inst (playing s0 ! 1) = Default"
    using fr(7) len by simp
  have p: "multiplier (phase n') = 2" "speedup (phase n') = 2 * 2 powr (- 900 / 1200)"
    "key n' = 6000"
    using silent_Play_6000 [of "(playing s0 ! 1)\<lparr>key := 6000, vel := 100 / 127\<rparr>" n'] n' i1
    by (simp_all add: fr(6))
  show ?thesis
    using p len by (simp add: on fr(4) MAX_NOTES_def ADSR_reset_def)
qed

theorem next_without_vibrato_witness:
  "(case WavetableSynth_new silent_files 0 44100 of
      Inl err \<Rightarrow> False
    | Inr s0 \<Rightarrow>
        (case onNoteOn silent_files s0 0 60 100 of
           Inl err \<Rightarrow> False
         | Inr s1 \<Rightarrow>
             int (length (playing s1)) = MAX_NOTES \<and> vibrato s1 = 0 \<and>
             key (playing s1 ! 1) = 6000 \<and> current_mode (env (playing s1 ! 1)) = ATTACK \<and>
             mphase (WavetableSynth_next s1) = mphase s1 \<and>
             speedup (phase (playing (WavetableSynth_next s1) ! 1)) = 2 * 2 powr (- 900 / 1200) \<and>
             speedup (phase (playing ((WavetableSynth_next ^^ 3) s1) ! 1))
               = 2 * 2 powr (- 900 / 1200) \<and>
             wf_synth s1 \<and>
             undisturbed silent_files
               [Tick, VolumeChange 0 64, NoteOn 0 60 90, Tick, NoteOff 0 60] s1 1 \<and>
             (case run_events silent_files
                     [Tick, VolumeChange 0 64, NoteOn 0 60 90, Tick, NoteOff 0 60] s1 of
                Inl err \<Rightarrow> False
              | Inr s' \<Rightarrow> speedup (phase (playing s' ! 1)) = 2 * 2 powr (- 900 / 1200))))"
proof -
  obtain s0 where s0: "WavetableSynth_new silent_files 0 44100 = Inr s0"
    using WavetableSynth_new_ok [OF silent_files_rates, of 44100 0] by auto
  obtain s1 v where s1: "onNoteOn silent_files s0 0 60 100 = Inr s1"
    and len: "int (length (playing s1)) = MAX_NOTES" and vib: "vibrato s1 = 0"
    and v: "playing s1 ! 1 = v" "key v = 6000" "multiplier (phase v) = 2"
      "speedup (phase v) = 2 * 2 powr (- 900 / 1200)"
      "current_mode (env v) = ATTACK" "envelope (env v) = 0"
    using silent_synth_note_60 [OF s0] by blast
  have l1: "1 < length (playing s1)"
    using len by (simp add: MAX_NOTES_def)
  have wf1: "wf_synth s1"
    using onNoteOn_wf [OF WavetableSynth_new_fresh(1) [OF s0] s1] .
  define sounding where "sounding s \<longleftrightarrow>
      wf_synth s \<and> vibrato s = 0 \<and> key (playing s ! 1) = 6000 \<and>
      current_mode (env (playing s ! 1)) \<noteq> RELEASE" for s
  have tick: "sounding (WavetableSynth_next s) \<and> \<not> overwrites s Tick 1" if "sounding s" for s
  proof -
    from that have wf: "wf_synth s" and vb: "vibrato s = 0" and k: "key (playing s ! 1) = 6000"
      and m: "current_mode (env (playing s ! 1)) \<noteq> RELEASE"
      by (simp_all add: sounding_def)
    have ln: "int (length (playing s)) = MAX_NOTES"
      using wf by (simp add: wf_synth_def)
    then have lt: "1 < length (playing s)"
      by (simp add: MAX_NOTES_def)
    have nx: "WavetableSynth_next s = s\<lparr>playing := map Note_next (playing s)\<rparr>"
      using WavetableSynth_next_still [OF ln vb] .
    have "playing (WavetableSynth_next s) ! 1 = Note_next (playing s ! 1)"
      using lt by (simp add: nx)
    then have "key (playing (WavetableSynth_next s) ! 1) = 6000"
      and "current_mode (env (playing (WavetableSynth_next s) ! 1)) \<noteq> RELEASE"
      using Note_next_sounding [OF m] k by simp_all
    moreover have "vibrato (WavetableSynth_next s) = 0"
      using vb by (simp add: nx)
    ultimately show ?thesis
      using callbacks_wf(1) [OF wf] vb m by (simp add: sounding_def)
  qed
  have volume: "sounding (onVolumeChange s c l)" if "sounding s" for s c l
    using that callbacks_wf(5) [of s c l]
    by (simp add: sounding_def) (simp add: onVolumeChange_def)
  have again: "\<exists>s'. onNoteOn silent_files s 0 60 90 = Inr s' \<and> sounding s' \<and>
                  \<not> overwrites s (NoteOn 0 60 90) 1" if "sounding s" for s
  proof -
    from that have wf: "wf_synth s" and vb: "vibrato s = 0" and k: "key (playing s ! 1) = 6000"
      and m: "current_mode (env (playing s ! 1)) \<noteq> RELEASE"
      by (simp_all add: sounding_def)
    have lt: "1 < length (playing s)"
      using wf by (simp add: wf_synth_def MAX_NOTES_def)
    then have "playing s ! 1 \<in> set (playing s)"
      by simp
    then have held: "\<exists>n\<in>set (playing s). key n = 60 * CENTS_SCALE"
      using k by (auto simp: CENTS_SCALE_def)
    from onNoteOn_held [OF wf held, of silent_files 0 90] obtain s' where
      on: "onNoteOn silent_files s 0 60 90 = Inr s'" and vb': "vibrato s' = vibrato s"
      and same: "\<forall>i<length (playing s). key (playing s' ! i) = key (playing s ! i) \<and>
              (current_mode (env (playing s' ! i)) = current_mode (env (playing s ! i)) \<or>
               current_mode (env (playing s' ! i)) = ATTACK)"
      by blast
    have "key (playing s' ! 1) = 6000" and "current_mode (env (playing s' ! 1)) \<noteq> RELEASE"
      using same [rule_format, OF lt] k m by auto
    then have "sounding s'"
      using onNoteOn_wf [OF wf on] vb vb' by (simp add: sounding_def)
    moreover have "\<not> overwrites s (NoteOn 0 60 90) 1"
      using held by (simp add: list_ex_iff)
    ultimately show ?thesis
      using on by blast
  qed
  let ?s2 = "WavetableSynth_next s1"
  let ?s3 = "onVolumeChange ?s2 0 64"
  have p1: "sounding s1"
    using wf1 vib v by (simp add: sounding_def)
  have p2: "sounding ?s2" and o1: "\<not> overwrites s1 Tick 1"
    using tick [OF p1] by simp_all
  have p3: "sounding ?s3"
    using volume [OF p2] .
  obtain s4 where s4: "onNoteOn silent_files ?s3 0 60 90 = Inr s4" and p4: "sounding s4"
    and o3: "\<not> overwrites ?s3 (NoteOn 0 60 90) 1"
    using again [OF p3] by blast
  have o4: "\<not> overwrites s4 Tick 1"
    using tick [OF p4] by simp
  have und: "undisturbed silent_files
               [Tick, VolumeChange 0 64, NoteOn 0 60 90, Tick, NoteOff 0 60] s1 1"
    by (simp only: undisturbed.simps apply_event.simps overwrites.simps(3,7) sum.case s4 o1 o3 o4
        simp_thms)
  note T = next_without_vibrato [OF len vib,
      where X = silent_files and evs = "[Tick, VolumeChange 0 64, NoteOn 0 60 90, Tick, NoteOff 0 60]"]
  have a: "mphase (WavetableSynth_next s1) = mphase s1"
    using T by blast
  have b: "speedup (phase (playing (WavetableSynth_next s1) ! 1)) = 2 * 2 powr (- 900 / 1200)"
    using T l1 v by simp
  have c: "speedup (phase (playing ((WavetableSynth_next ^^ 3) s1) ! 1))
             = speedup (phase (playing s1 ! 1))"
    using T l1 v by simp
  obtain s' where run: "run_events silent_files
                     [Tick, VolumeChange 0 64, NoteOn 0 60 90, Tick, NoteOff 0 60] s1 = Inr s'"
    and d: "speedup (phase (playing s' ! 1)) = speedup (phase (playing s1 ! 1))"
    using T l1 wf1 und by blast
  have e: "(case run_events silent_files
                     [Tick, VolumeChange 0 64, NoteOn 0 60 90, Tick, NoteOff 0 60] s1 of
                Inl err \<Rightarrow> False
              | Inr s' \<Rightarrow> speedup (phase (playing s' ! 1)) = 2 * 2 powr (- 900 / 1200))"
    using d v by (simp only: run sum.case)
  show ?thesis
    using a b c len vib v wf1 und e by (simp only: s0 s1 sum.case simp_thms)
qed

text \<open>
  C10, the claim as stated fails. A synthesizer as constructed (vibrato depth 0) receives
  \<^verbatim>\<open>onNoteOn(0, 60, 100)\<close> and at once \<^verbatim>\<open>onNoteOff(0, 60)\<close>: the voice in slot 1 is in
  Release with amplitude 0. The next \<^verbatim>\<open>next()\<close> reclaims it and changes its resampler speed,
  from the pitch of key 60 to the detuned one. And a vibrato contribution does not outlast a
  patch change: on a synthesizer as constructed, the modulation wheel at 127, one
  \<^verbatim>\<open>next()\<close> and the modulation wheel back at 0 leave the contribution in the speed of the
  voice in slot 0 with the vibrato depth 0; \<^verbatim>\<open>onPatchChange(0, 0)\<close> then rebuilds the voice
  and its speed is the one without the contribution.
\<close>

theorem next_without_vibrato_counterexample:
  "(case WavetableSynth_new silent_files 0 44100 of
      Inl err \<Rightarrow> False
    | Inr s0 \<Rightarrow>
        (case onNoteOn silent_files s0 0 60 100 of
           Inl err \<Rightarrow> False
         | Inr s1 \<Rightarrow>
             vibrato (onNoteOff s1 0 60) = 0 \<and>
             speedup (phase (playing (onNoteOff s1 0 60) ! 1)) = 2 * 2 powr (- 900 / 1200) \<and>
             speedup (phase (playing (WavetableSynth_next (onNoteOff s1 0 60)) ! 1))
               = 2 * 2 powr (- 25600 / 1200) \<and>
             speedup (phase (playing (WavetableSynth_next (onNoteOff s1 0 60)) ! 1))
               \<noteq> speedup (phase (playing (onNoteOff s1 0 60) ! 1)))) \<and>
   (case WavetableSynth_new silent_files 0 44100 of
      Inl err \<Rightarrow> False
    | Inr s0 \<Rightarrow>
        (let s3 = onModulationWheelChange
                    (WavetableSynth_next (onModulationWheelChange s0 0 127)) 0 0
         in vibrato s3 = 0 \<and>
            speedup (phase (playing s3 ! 0))
              = 16 * 2 powr ((200 * sin (pi / 4410) - 6901) / 1200) \<and>
            (case onPatchChange silent_files s3 0 0 of
               Inl err \<Rightarrow> False
             | Inr s4 \<Rightarrow>
                 speedup (phase (playing s4 ! 0)) = 16 * 2 powr (- 6901 / 1200) \<and>
                 speedup (phase (playing s4 ! 0)) \<noteq> speedup (phase (playing s3 ! 0)))))"
proof -
  obtain s0 where s0: "WavetableSynth_new silent_files 0 44100 = Inr s0"
    using WavetableSynth_new_ok [OF silent_files_rates, of 44100 0] by auto
  obtain s1 v where s1: "onNoteOn silent_files s0 0 60 100 = Inr s1"
    and len: "int (length (playing s1)) = MAX_NOTES" and vib: "vibrato s1 = 0"
    and v: "playing s1 ! 1 = v" "key v = 6000" "multiplier (phase v) = 2"
      "speedup (phase v) = 2 * 2 powr (- 900 / 1200)"
      "current_mode (env v) = ATTACK" "envelope (env v) = 0"
    using silent_synth_note_60 [OF s0] by blast
  let ?s2 = "onNoteOff s1 0 60"
  have l1: "1 < length (playing s1)"
    using len by (simp add: MAX_NOTES_def)
  have off: "?s2 = s1\<lparr>playing :=
               map (\<lambda>n. if key n = 6000 then n\<lparr>env := sustainOff (env n)\<rparr> else n)
                 (playing s1)\<rparr>"
    using len by (simp add: onNoteOff_def for_notes_map CENTS_SCALE_def)
  have v2: "playing ?s2 ! 1 = v\<lparr>env := sustainOff (env v)\<rparr>"
    using l1 v by (simp add: off)
  have len2: "int (length (playing ?s2)) = MAX_NOTES" and vib2: "vibrato ?s2 = 0"
    using len vib by (simp_all add: off)
  have before: "speedup (phase (playing ?s2 ! 1)) = 2 * 2 powr (- 900 / 1200)"
    using v v2 by simp
  have l2: "1 < length (playing ?s2)"
    using len2 by (simp add: MAX_NOTES_def)
  have "playing (WavetableSynth_next ?s2) ! 1 = Note_next (playing ?s2 ! 1)"
    using l2 by (simp add: WavetableSynth_next_still [OF len2 vib2])
  then have "playing (WavetableSynth_next ?s2) ! 1 = Note_next (v\<lparr>env := sustainOff (env v)\<rparr>)"
    using v2 by simp
  then have after: "speedup (phase (playing (WavetableSynth_next ?s2) ! 1))
                      = 2 * 2 powr (- 25600 / 1200)"
    using v by (simp add: Note_next_speed sustainOff_def EPSILON_def OCTAVE_CENTILES_def)
  have "(2::real) powr (- 25600 / 1200) \<noteq> 2 powr (- 900 / 1200)"
    by (simp add: powr_inj)
  then have reclaimed: "vibrato ?s2 = 0 \<and>
             speedup (phase (playing ?s2 ! 1)) = 2 * 2 powr (- 900 / 1200) \<and>
             speedup (phase (playing (WavetableSynth_next ?s2) ! 1))
               = 2 * 2 powr (- 25600 / 1200) \<and>
             speedup (phase (playing (WavetableSynth_next ?s2) ! 1))
               \<noteq> speedup (phase (playing ?s2 ! 1))"
    using vib2 before after by simp
  let ?t2 = "WavetableSynth_next (onModulationWheelChange s0 0 127)"
  let ?t3 = "onModulationWheelChange ?t2 0 0"
  note vt = silent_synth_vibrato_tick [OF s0]
  have vib3: "vibrato ?t3 = 0"
    by (simp add: onModulationWheelChange_def)
  have t3: "playing ?t3 = playing ?t2" "rate ?t3 = 44100"
    using vt(3) by (simp_all add: onModulationWheelChange_def)
  have len3: "int (length (playing ?t3)) = MAX_NOTES"
    using vt(2) by (simp add: wf_synth_def t3)
  have speed3: "speedup (phase (playing ?t3 ! 0))
                  = 16 * 2 powr ((200 * sin (pi / 4410) - 6901) / 1200)"
    using vt(1) by (simp add: t3)
  obtain n where n: "Note_new silent_files (- 1) 0 Default 44100 = Inr n"
    using Note_new_ok [OF silent_files_rates, of 44100 "- 1" 0 Default] by auto
  have speedn: "speedup (phase n) = 16 * 2 powr (- 6901 / 1200)"
    using silent_voice(2) [OF n] by simp
  have patch: "onPatchChange silent_files ?t3 0 0
                 = Inr (?t3\<lparr>patch := Default, playing := map (\<lambda>_. n) (playing ?t3)\<rparr>)"
    using n len3
    by (simp add: onPatchChange_def c_rem_def Default_def Grand_def t3(2) and_then_def
        for_notes_map)
  have l3: "0 < length (playing ?t3)"
    using len3 by (simp add: MAX_NOTES_def)
  have "0 < sin (pi / 4410)"
    by (intro sin_gt_zero) (simp_all add: pi_gt_zero)
  then have differ: "16 * 2 powr (- 6901 / 1200)
                       \<noteq> (16::real) * 2 powr ((200 * sin (pi / 4410) - 6901) / 1200)"
    by (simp add: powr_inj)
  have rebuilt: "(let s3 = ?t3
         in vibrato s3 = 0 \<and>
            speedup (phase (playing s3 ! 0))
              = 16 * 2 powr ((200 * sin (pi / 4410) - 6901) / 1200) \<and>
            (case onPatchChange silent_files s3 0 0 of
               Inl err \<Rightarrow> False
             | Inr s4 \<Rightarrow>
                 speedup (phase (playing s4 ! 0)) = 16 * 2 powr (- 6901 / 1200) \<and>
                 speedup (phase (playing s4 ! 0)) \<noteq> speedup (phase (playing s3 ! 0))))"
    unfolding Let_def patch sum.case
    using vib3 speed3 speedn differ l3 by simp
  show ?thesis
    unfolding s0 s1 sum.case
    using reclaimed rebuilt by (rule conjI)
qed


end
